theory Spec2Isabelle
  imports Complex_Main
begin

section \<open>Python and numpy primitives used by Midi.py\<close>

text \<open>
  The exceptions the modelled code can raise. Every operation that can raise returns a
  value of type \<open>error + 'a\<close>, with \<open>Inl\<close> for the exception.
\<close>

datatype error = ValueError | IndexError | AttributeError

text \<open>What a method returns to its caller: \<open>None\<close> or an integer.\<close>

datatype retval = PyNone | PyInt int

text \<open>
  A two-dimensional numpy array: its number of columns and its rows. The shape is
  \<open>(length rows, ncols)\<close>, so an array without rows still has a width, as in numpy.
  The element type stands for the dtype: \<open>bool\<close> for dtype bool, \<open>real\<close> for the
  float64 array that \<open>np.zeros\<close> makes by default (it only ever holds 0.0 and 1.0 here).
\<close>

record 'a array2 =
  ncols :: nat
  rows :: "'a list list"

definition nrows :: "'a array2 \<Rightarrow> nat" where
  "nrows a = length (rows a)"

definition shape2 :: "'a array2 \<Rightarrow> nat \<times> nat" where
  "shape2 a = (nrows a, ncols a)"

definition wf_array2 :: "'a array2 \<Rightarrow> bool" where
  "wf_array2 a = list_all (\<lambda>r. length r = ncols a) (rows a)"

text \<open>A three-dimensional array of shape \<open>(length blocks, dim1, dim2)\<close>.\<close>

record 'a array3 =
  dim1 :: nat
  dim2 :: nat
  blocks :: "'a list list list"

definition shape3 :: "'a array3 \<Rightarrow> nat \<times> nat \<times> nat" where
  "shape3 a = (length (blocks a), dim1 a, dim2 a)"

text \<open>
  \<open>np.zeros((r, c), dtype)\<close>: a negative dimension raises ValueError. The zero of the
  dtype is passed as \<open>z\<close>.
\<close>

definition np_zeros2 :: "'a \<Rightarrow> int \<Rightarrow> int \<Rightarrow> error + 'a array2" where
  "np_zeros2 z r c =
     (if r < 0 \<or> c < 0 then Inl ValueError
      else Inr \<lparr>ncols = nat c, rows = replicate (nat r) (replicate (nat c) z)\<rparr>)"

definition np_zeros3 :: "'a \<Rightarrow> int \<Rightarrow> int \<Rightarrow> int \<Rightarrow> error + 'a array3" where
  "np_zeros3 z n r c =
     (if n < 0 \<or> r < 0 \<or> c < 0 then Inl ValueError
      else Inr \<lparr>dim1 = nat r, dim2 = nat c,
                blocks = replicate (nat n) (replicate (nat r) (replicate (nat c) z))\<rparr>)"

text \<open>
  A slice bound on an axis of length \<open>n\<close>: a negative bound counts from the end, and
  the result is clipped to \<open>0 .. n\<close>. \<open>slice_bounds n start stop\<close> is the half-open
  range of positions that \<open>[start:stop]\<close> selects.
\<close>

definition norm_bound :: "nat \<Rightarrow> int \<Rightarrow> nat" where
  "norm_bound n i = (if i < 0 then nat (max (i + int n) 0) else min (nat i) n)"

definition slice_bounds :: "nat \<Rightarrow> int \<Rightarrow> int \<Rightarrow> nat \<times> nat" where
  "slice_bounds n start stop =
     (let lo = norm_bound n start; hi = norm_bound n stop in (lo, max lo hi))"

definition py_slice :: "int \<Rightarrow> int \<Rightarrow> 'a list \<Rightarrow> 'a list" where
  "py_slice start stop xs =
     (case slice_bounds (length xs) start stop of (lo, hi) \<Rightarrow> take (hi - lo) (drop lo xs))"

text \<open>\<open>xs[i]\<close>: a negative index counts from the end; out of range raises IndexError.\<close>

definition py_index :: "'a list \<Rightarrow> int \<Rightarrow> error + 'a" where
  "py_index xs i =
     (if 0 \<le> i \<and> i < int (length xs) then Inr (xs ! nat i)
      else if i < 0 \<and> - int (length xs) \<le> i then Inr (xs ! nat (i + int (length xs)))
      else Inl IndexError)"

text \<open>
  \<open>range(start, stop, step)\<close> as the list of the values the loop visits. A zero step
  raises ValueError.
\<close>

function range_up :: "int \<Rightarrow> int \<Rightarrow> int \<Rightarrow> int list" where
  "range_up i stop step =
     (if 0 < step \<and> i < stop then i # range_up (i + step) stop step else [])"
  by pat_completeness auto
termination
  by (relation "measure (\<lambda>(i, stop, step). nat (stop - i))") auto

function range_down :: "int \<Rightarrow> int \<Rightarrow> int \<Rightarrow> int list" where
  "range_down i stop step =
     (if step < 0 \<and> stop < i then i # range_down (i + step) stop step else [])"
  by pat_completeness auto
termination
  by (relation "measure (\<lambda>(i, stop, step). nat (i - stop))") auto

declare range_up.simps [simp del]
declare range_down.simps [simp del]

definition py_range :: "int \<Rightarrow> int \<Rightarrow> int \<Rightarrow> error + int list" where
  "py_range start stop step =
     (if step = 0 then Inl ValueError
      else if 0 < step then Inr (range_up start stop step)
      else Inr (range_down start stop step))"

text \<open>
  Broadcasting in an assignment: a source dimension must equal the target's or be 1, in
  which case the single row or column is repeated. Anything else raises ValueError.
\<close>

definition broadcast1 :: "nat \<Rightarrow> 'a list \<Rightarrow> error + 'a list" where
  "broadcast1 w xs =
     (if length xs = w then Inr xs
      else if length xs = 1 then Inr (replicate w (hd xs))
      else Inl ValueError)"

definition broadcast2 :: "nat \<Rightarrow> nat \<Rightarrow> 'a array2 \<Rightarrow> error + 'a list list" where
  "broadcast2 h w src =
     (if (nrows src = h \<or> nrows src = 1) \<and> (ncols src = w \<or> ncols src = 1) then
        Inr (map (\<lambda>r. if ncols src = w then r else replicate w (hd r))
               (if nrows src = h then rows src else replicate h (hd (rows src))))
      else Inl ValueError)"

text \<open>\<open>dest[start:stop, :] = src\<close> and \<open>dest[:, start:stop] = src\<close>.\<close>

definition set_rows :: "'a array2 \<Rightarrow> int \<Rightarrow> int \<Rightarrow> 'a array2 \<Rightarrow> error + 'a array2" where
  "set_rows dest start stop src =
     (case slice_bounds (nrows dest) start stop of (lo, hi) \<Rightarrow>
        (case broadcast2 (hi - lo) (ncols dest) src of
           Inl e \<Rightarrow> Inl e
         | Inr block \<Rightarrow> Inr (dest\<lparr>rows := take lo (rows dest) @ block @ drop hi (rows dest)\<rparr>)))"

definition set_cols :: "'a array2 \<Rightarrow> int \<Rightarrow> int \<Rightarrow> 'a array2 \<Rightarrow> error + 'a array2" where
  "set_cols dest start stop src =
     (case slice_bounds (ncols dest) start stop of (lo, hi) \<Rightarrow>
        (case broadcast2 (nrows dest) (hi - lo) src of
           Inl e \<Rightarrow> Inl e
         | Inr block \<Rightarrow>
             Inr (dest\<lparr>rows := map (\<lambda>(d, s). take lo d @ s @ drop hi d) (zip (rows dest) block)\<rparr>)))"

text \<open>\<open>a[:, start:stop]\<close>: the same columns of every row.\<close>

definition slice_cols :: "'a array2 \<Rightarrow> int \<Rightarrow> int \<Rightarrow> 'a array2" where
  "slice_cols a start stop =
     (case slice_bounds (ncols a) start stop of (lo, hi) \<Rightarrow>
        \<lparr>ncols = hi - lo, rows = map (py_slice start stop) (rows a)\<rparr>)"

text \<open>
  \<open>np.roll(a, s, axis=1)\<close>: the entry at column \<open>j\<close> moves to column \<open>(j + s) mod n\<close>,
  so column \<open>j\<close> of the result is column \<open>(j - s) mod n\<close> of the source.
\<close>

definition roll_row :: "int \<Rightarrow> 'a list \<Rightarrow> 'a list" where
  "roll_row s xs = map (\<lambda>j. xs ! nat ((int j - s) mod int (length xs))) [0..<length xs]"

definition np_roll :: "'a array2 \<Rightarrow> int \<Rightarrow> 'a array2" where
  "np_roll a s = a\<lparr>rows := map (roll_row s) (rows a)\<rparr>"

text \<open>
  A Python string is a sequence of Unicode code points. \<open>py_str\<close> reads an ASCII
  literal of the source as such a sequence.
\<close>

type_synonym pystr = "nat list"

definition py_str :: "string \<Rightarrow> pystr" where
  "py_str s = map of_char s"

text \<open>
  \<open>str.isalpha\<close> and \<open>str.lower\<close> follow the Unicode character database of the
  Python interpreter, which is not part of this repository. On ASCII they are the letters
  A to Z and a to z, and the map from A..Z to a..z; that part is written out below. What
  they do beyond ASCII is a parameter of the model: \<open>uni_isalpha\<close> for one code point,
  \<open>uni_lower\<close> for a whole string that has a non-ASCII code point in it (lowering can
  depend on the neighbours and can change the length). Every function that looks at a
  track name takes these tables as its first argument, and every theorem holds for all
  tables.
\<close>

record unicode_tables =
  uni_isalpha :: "nat \<Rightarrow> bool"
  uni_lower :: "pystr \<Rightarrow> pystr"

definition isalpha :: "unicode_tables \<Rightarrow> nat \<Rightarrow> bool" where
  "isalpha U c =
     (if c < 128 then (65 \<le> c \<and> c \<le> 90) \<or> (97 \<le> c \<and> c \<le> 122)
      else uni_isalpha U c)"

definition lower :: "unicode_tables \<Rightarrow> pystr \<Rightarrow> pystr" where
  "lower U text =
     (if list_all (\<lambda>c. c < 128) text
      then map (\<lambda>c. if 65 \<le> c \<and> c \<le> 90 then c + 32 else c) text
      else uni_lower U text)"

section \<open>Module constants\<close>

definition MIDDLE_C :: int where "MIDDLE_C = 64"
definition MIDI_INPUTS :: nat where "MIDI_INPUTS = 128"

section \<open>Track classifier\<close>

definition DRUM_NAMES :: "pystr list" where
  "DRUM_NAMES = map py_str [''drums'', ''congos'', ''cymbals'', ''hits'']"
definition PIANO_NAMES :: "pystr list" where
  "PIANO_NAMES = map py_str [''piano'', ''accoustic piano'', ''guitar'', ''flutevibes'']"
definition BASS_NAMES :: "pystr list" where
  "BASS_NAMES = map py_str [''bass'', ''fretless bass'']"
definition OTHER_NAMES :: "pystr list" where
  "OTHER_NAMES =
     map py_str [''trumpet'', ''alto'', ''tenor'', ''trombone'', ''he harmonica'', ''she flute'']"

text \<open>
  A track as pypianoroll delivers it: name, program number, drum flag and, after
  \<open>binarize\<close>, a boolean piano roll of 128 columns.
\<close>

record track =
  name :: pystr
  program :: int
  is_drum_flag :: bool
  pianoroll :: "bool list list"

text \<open>
  \<open>remove_non_ascii\<close> lowers the text and keeps the characters that are alphabetic or
  the space (code point 32).
\<close>

definition remove_non_ascii :: "unicode_tables \<Rightarrow> pystr \<Rightarrow> pystr" where
  "remove_non_ascii U text = filter (\<lambda>i. isalpha U i \<or> i = 32) (lower U text)"

text \<open>\<open>n in t\<close> on strings: \<open>n\<close> occurs in \<open>t\<close> as a contiguous substring.\<close>

primrec py_in :: "'a list \<Rightarrow> 'a list \<Rightarrow> bool" where
  "py_in n [] = (n = [])"
| "py_in n (c # cs) = (take (length n) (c # cs) = n \<or> py_in n cs)"

text \<open>The loop \<open>for n in NAMES: if n in t: return True\<close>, falling through with False.\<close>

primrec name_match :: "'a list list \<Rightarrow> 'a list \<Rightarrow> bool" where
  "name_match [] t = False"
| "name_match (n # ns) t = (if py_in n t then True else name_match ns t)"

definition is_drum :: "unicode_tables \<Rightarrow> track \<Rightarrow> bool" where
  "is_drum U track =
     (let t = remove_non_ascii U (lower U (name track))
      in if name_match DRUM_NAMES t then True else is_drum_flag track)"

definition is_piano :: "unicode_tables \<Rightarrow> track \<Rightarrow> bool" where
  "is_piano U track =
     (let t = remove_non_ascii U (lower U (name track))
      in if program track < 32 then True
         else if name_match PIANO_NAMES t then True else False)"

definition is_bass :: "unicode_tables \<Rightarrow> track \<Rightarrow> bool" where
  "is_bass U track =
     (let t = remove_non_ascii U (lower U (name track))
      in if name_match BASS_NAMES t then True
         else (program track > 31 \<and> program track < 40))"

definition is_other :: "unicode_tables \<Rightarrow> track \<Rightarrow> bool" where
  "is_other U track =
     (let t = remove_non_ascii U (lower U (name track))
      in if name_match OTHER_NAMES t then True else program track > 39)"

section \<open>The Midi class\<close>

record midi =
  beat_resolution :: int
  num_pitches :: int
  notes_above :: int
  cut :: bool
  tempo :: "real option"
  roll :: "bool array2 option"

text \<open>\<open>Midi.__init__(num_pitches, beat_resolution=24, cut=True)\<close>.\<close>

definition init :: "int \<Rightarrow> int \<Rightarrow> bool \<Rightarrow> midi" where
  "init np br c =
     \<lparr>beat_resolution = br, num_pitches = np, notes_above = np div 2, cut = c,
      tempo = None, roll = None\<rparr>"

text \<open>
  A file after \<open>pypianoroll.read\<close> and \<open>set_resolution\<close>: its tracks and the value of
  \<open>multitrack.tempo.mean()\<close>.
\<close>

record multitrack =
  tracks :: "track list"
  tempo_mean :: real

text \<open>
  Modelled from the spec: \<open>multitrack.binarize().blend('any')\<close> is pypianoroll code, not
  part of this repository. The spec describes it as the logical OR across the tracks at
  each (time, pitch) cell; the result is a boolean roll of 128 columns as long as the
  longest track.
\<close>

definition blend_any :: "track list \<Rightarrow> bool array2" where
  "blend_any ts =
     \<lparr>ncols = MIDI_INPUTS,
      rows = map (\<lambda>t. map (\<lambda>p. list_ex (\<lambda>tr. t < length (pianoroll tr) \<and>
                                       p < length (pianoroll tr ! t) \<and> pianoroll tr ! t ! p) ts)
                        [0..<MIDI_INPUTS])
               [0..<foldr (\<lambda>tr n. max (length (pianoroll tr)) n) ts 0]\<rparr>"

text \<open>The \<open>analysis\<close> dictionary of \<open>load_midi\<close>: one counter per category.\<close>

datatype category = Piano | Bass | Drums | Other

record analysis =
  piano :: nat
  drums :: nat
  bass :: nat
  other :: nat

text \<open>
  The \<open>if\<close>/\<open>elif\<close> chain in the track loop of \<open>load_midi\<close>: which counter the track
  increments, or \<open>None\<close> for the final \<open>else\<close> branch that returns -1.
\<close>

definition classify :: "unicode_tables \<Rightarrow> track \<Rightarrow> category option" where
  "classify U track =
     (if is_piano U track then Some Piano
      else if is_bass U track then Some Bass
      else if is_drum U track then Some Drums
      else if is_other U track then Some Other
      else None)"

fun count :: "analysis \<Rightarrow> category \<Rightarrow> analysis" where
  "count a Piano = a\<lparr>piano := piano a + 1\<rparr>"
| "count a Bass = a\<lparr>bass := bass a + 1\<rparr>"
| "count a Drums = a\<lparr>drums := drums a + 1\<rparr>"
| "count a Other = a\<lparr>other := other a + 1\<rparr>"

fun analyse :: "unicode_tables \<Rightarrow> analysis \<Rightarrow> track list \<Rightarrow> analysis option" where
  "analyse U a [] = Some a"
| "analyse U a (t # ts) =
     (case classify U t of None \<Rightarrow> None | Some c \<Rightarrow> analyse U (count a c) ts)"

text \<open>How many tracks the dictionary has counted.\<close>

definition total :: "analysis \<Rightarrow> nat" where
  "total a = piano a + bass a + drums a + other a"

text \<open>The filter that keeps the piano tracks of a file.\<close>

definition keep_track :: "unicode_tables \<Rightarrow> track \<Rightarrow> bool" where
  "keep_track U x = ((\<not> (is_drum U x \<or> is_bass U x \<or> is_other U x)) \<and> is_piano U x)"

text \<open>\<open>roll[:, MIDDLE_C - self.notes_above : MIDDLE_C + self.notes_above]\<close>.\<close>

definition cut_window :: "midi \<Rightarrow> 'a array2 \<Rightarrow> 'a array2" where
  "cut_window m r = slice_cols r (MIDDLE_C - notes_above m) (MIDDLE_C + notes_above m)"

text \<open>
  The loop over the files of \<open>load_midi\<close>, with its accumulators \<open>rolls\<close> and
  \<open>roll_length\<close>. It ends early (\<open>Aborted\<close>) when a track is unclassifiable.
\<close>

datatype loop_result = Aborted | Collected "bool array2 list" nat

fun load_loop :: "unicode_tables \<Rightarrow> midi \<Rightarrow> multitrack list \<Rightarrow> bool array2 list \<Rightarrow> nat \<Rightarrow>
    midi \<times> loop_result" where
  "load_loop U m [] rolls roll_length = (m, Collected rolls roll_length)"
| "load_loop U m (f # fs) rolls roll_length =
     (let m1 = m\<lparr>tempo := Some (tempo_mean f)\<rparr> in
      case analyse U \<lparr>piano = 0, drums = 0, bass = 0, other = 0\<rparr> (tracks f) of
        None \<Rightarrow> (m1, Aborted)
      | Some a \<Rightarrow>
          (let kept = filter (keep_track U) (tracks f) in
           if length kept = 0 then load_loop U m1 fs rolls roll_length
           else
             (let r = blend_any kept;
                  refined = (if cut m1 then cut_window m1 r else r)
              in load_loop U m1 fs (rolls @ [refined]) (roll_length + nrows refined))))"

text \<open>The loop that fills \<open>extended\<close>, with its running \<open>index\<close>.\<close>

fun merge_loop :: "bool array2 \<Rightarrow> nat \<Rightarrow> bool array2 list \<Rightarrow> error + bool array2" where
  "merge_loop extended index [] = Inr extended"
| "merge_loop extended index (r # rs) =
     (case set_rows extended (int index) (int index + int (nrows r)) r of
        Inl e \<Rightarrow> Inl e
      | Inr extended' \<Rightarrow> merge_loop extended' (index + nrows r) rs)"

text \<open>
  \<open>Midi.load_midi(fnames)\<close>: the value returned or the exception raised, and the object
  afterwards.
\<close>

definition load_midi :: "unicode_tables \<Rightarrow> midi \<Rightarrow> multitrack list \<Rightarrow> (error + retval) \<times> midi" where
  "load_midi U m fnames =
     (case load_loop U m fnames [] 0 of
        (m1, Aborted) \<Rightarrow> (Inr (PyInt (- 1)), m1)
      | (m1, Collected rolls roll_length) \<Rightarrow>
          (case np_zeros2 False (int roll_length) (num_pitches m1) of
             Inl e \<Rightarrow> (Inl e, m1)
           | Inr extended \<Rightarrow>
               (case merge_loop extended 0 rolls of
                  Inl e \<Rightarrow> (Inl e, m1)
                | Inr extended' \<Rightarrow> (Inr PyNone, m1\<lparr>roll := Some extended'\<rparr>))))"

text \<open>
  The argument of \<open>load_np\<close> can have any number of dimensions: an array given by its
  shape and its elements in row-major order.
\<close>

record 'a ndarray =
  shape :: "nat list"
  flat :: "'a list"

definition to_array2 :: "nat \<Rightarrow> nat \<Rightarrow> 'a list \<Rightarrow> 'a array2" where
  "to_array2 r c xs = \<lparr>ncols = c, rows = map (\<lambda>t. take c (drop (t * c) xs)) [0..<r]\<rparr>"

text \<open>
  \<open>Midi.load_np(roll, tempo=120)\<close>. \<open>np.reshape\<close> raises ValueError when the sizes
  differ, and \<open>roll.shape[1]\<close> raises IndexError on an array of fewer than two
  dimensions; both happen before any field is written.
\<close>

definition load_np :: "midi \<Rightarrow> bool ndarray \<Rightarrow> real \<Rightarrow> (error + retval) \<times> midi" where
  "load_np m a tmp =
     (let sh = shape a in
      if length sh > 2 \<and> prod_list sh \<noteq> (sh ! 1) * (sh ! 2) then (Inl ValueError, m)
      else
        (let sh' = (if length sh > 2 then [sh ! 1, sh ! 2] else sh) in
         if length sh' < 2 then (Inl IndexError, m)
         else
           (let r = to_array2 (sh' ! 0) (sh' ! 1) (flat a);
                m1 = (if sh' ! 1 > MIDI_INPUTS then m
                      else if sh' ! 1 = MIDI_INPUTS then m\<lparr>cut := False\<rparr>
                      else m\<lparr>num_pitches := int (sh' ! 1),
                             notes_above := int (sh' ! 1) div 2,
                             cut := True\<rparr>)
            in (Inr PyNone, m1\<lparr>roll := Some r, tempo := Some tmp\<rparr>))))"

text \<open>
  \<open>Midi.vectorise(lookback, step=1)\<close>. First the loop that collects the phrases and the
  next notes, then the two zero arrays, then the loop that copies into them.
\<close>

fun collect :: "bool array2 \<Rightarrow> int \<Rightarrow> int list \<Rightarrow> error + (bool array2 list \<times> bool list list)" where
  "collect r lookback [] = Inr ([], [])"
| "collect r lookback (i # is) =
     (let phrase = \<lparr>ncols = ncols r, rows = py_slice i (i + lookback) (rows r)\<rparr> in
      case py_index (rows r) (i + lookback) of
        Inl e \<Rightarrow> Inl e
      | Inr next_note \<Rightarrow>
          (case collect r lookback is of
             Inl e \<Rightarrow> Inl e
           | Inr (phrases, next_notes) \<Rightarrow> Inr (phrase # phrases, next_note # next_notes)))"

fun fill :: "bool array3 \<Rightarrow> bool array2 \<Rightarrow> nat \<Rightarrow> bool array2 list \<Rightarrow> bool list list \<Rightarrow>
    error + (bool array3 \<times> bool array2)" where
  "fill x y i (phrase # phrases) (next_note # next_notes) =
     (case broadcast2 (dim1 x) (dim2 x) phrase of
        Inl e \<Rightarrow> Inl e
      | Inr block \<Rightarrow>
          (case broadcast1 (ncols y) next_note of
             Inl e \<Rightarrow> Inl e
           | Inr row \<Rightarrow>
               fill (x\<lparr>blocks := (blocks x)[i := block]\<rparr>) (y\<lparr>rows := (rows y)[i := row]\<rparr>)
                 (Suc i) phrases next_notes))"
| "fill x y i _ _ = Inr (x, y)"

definition vectorise :: "midi \<Rightarrow> int \<Rightarrow> int \<Rightarrow> error + (bool array3 \<times> bool array2)" where
  "vectorise m lookback step =
     (case roll m of
        None \<Rightarrow> Inl AttributeError
      | Some r \<Rightarrow>
          (case py_range 0 (int (nrows r) - lookback) step of
             Inl e \<Rightarrow> Inl e
           | Inr is \<Rightarrow>
               (case collect r lookback is of
                  Inl e \<Rightarrow> Inl e
                | Inr (phrases, next_notes) \<Rightarrow>
                    (case np_zeros3 False (int (length phrases)) lookback (num_pitches m) of
                       Inl e \<Rightarrow> Inl e
                     | Inr x \<Rightarrow>
                         (case np_zeros2 False (int (length phrases)) (num_pitches m) of
                            Inl e \<Rightarrow> Inl e
                          | Inr y \<Rightarrow> fill x y 0 phrases next_notes)))))"

text \<open>
  \<open>Midi.reformat_roll()\<close>: a float64 array of zeros of width 128, with the roll written
  into the window (the booleans become 0.0 and 1.0).
\<close>

definition astype_float :: "bool array2 \<Rightarrow> real array2" where
  "astype_float a = \<lparr>ncols = ncols a, rows = map (map of_bool) (rows a)\<rparr>"

definition reformat_roll :: "midi \<Rightarrow> error + real array2" where
  "reformat_roll m =
     (case roll m of
        None \<Rightarrow> Inl AttributeError
      | Some r \<Rightarrow>
          (case np_zeros2 0 (int (nrows r)) (int MIDI_INPUTS) of
             Inl e \<Rightarrow> Inl e
           | Inr export \<Rightarrow>
               set_cols export (MIDDLE_C - notes_above m) (MIDDLE_C + notes_above m)
                 (astype_float r)))"

text \<open>
  The first statement of \<open>Midi.save(fname)\<close>: the array that is handed to
  \<open>pypianoroll.BinaryTrack\<close>. Writing the file itself is left to the library.
\<close>

datatype exported = Float_roll "real array2" | Bool_roll "bool array2"

definition save_roll :: "midi \<Rightarrow> error + exported" where
  "save_roll m =
     (if cut m then
        (case reformat_roll m of Inl e \<Rightarrow> Inl e | Inr r \<Rightarrow> Inr (Float_roll r))
      else
        (case roll m of None \<Rightarrow> Inl AttributeError | Some r \<Rightarrow> Inr (Bool_roll r)))"

text \<open>
  \<open>Midi.augment(n_augments, v_step=5)\<close>. The loop writes two shifted copies per round
  at the running \<open>index\<close>.
\<close>

fun augment_loop :: "bool array2 \<Rightarrow> int \<Rightarrow> bool array2 \<Rightarrow> nat \<Rightarrow> int list \<Rightarrow>
    error + bool array2" where
  "augment_loop r v_step new_roll index [] = Inr new_roll"
| "augment_loop r v_step new_roll index (i # is) =
     (case set_rows new_roll (int index) (int index + int (nrows r)) (np_roll r (i * v_step)) of
        Inl e \<Rightarrow> Inl e
      | Inr new_roll1 \<Rightarrow>
          (let index1 = index + nrows r in
           case set_rows new_roll1 (int index1) (int index1 + int (nrows r))
                  (np_roll r (- i * v_step)) of
             Inl e \<Rightarrow> Inl e
           | Inr new_roll2 \<Rightarrow> augment_loop r v_step new_roll2 (index1 + nrows r) is))"

definition augment :: "midi \<Rightarrow> int \<Rightarrow> int \<Rightarrow> (error + retval) \<times> midi" where
  "augment m n_augments v_step =
     (case roll m of
        None \<Rightarrow> (Inr PyNone, m)
      | Some r \<Rightarrow>
          (case np_zeros2 False (int (nrows r) * ((n_augments div 2) * 2 + 1)) (num_pitches m) of
             Inl e \<Rightarrow> (Inl e, m)
           | Inr new_roll \<Rightarrow>
               (case set_rows new_roll 0 (int (nrows r)) r of
                  Inl e \<Rightarrow> (Inl e, m)
                | Inr new_roll0 \<Rightarrow>
                    (case py_range 1 (n_augments div 2 + 1) 1 of
                       Inl e \<Rightarrow> (Inl e, m)
                     | Inr is \<Rightarrow>
                         (case augment_loop r v_step new_roll0 (nrows r) is of
                            Inl e \<Rightarrow> (Inl e, m)
                          | Inr new_roll' \<Rightarrow> (Inr PyNone, m\<lparr>roll := Some new_roll'\<rparr>))))))"

text \<open>
  A sequence of calls on one object. A call that raises leaves the object as the
  exception found it; \<open>vectorise\<close> writes no field.
\<close>

datatype call =
    Load_np "bool ndarray" real
  | Load_midi "multitrack list"
  | Vectorise int int
  | Augment int int

fun exec :: "unicode_tables \<Rightarrow> midi \<Rightarrow> call \<Rightarrow> midi" where
  "exec U m (Load_np a tmp) = snd (load_np m a tmp)"
| "exec U m (Load_midi fnames) = snd (load_midi U m fnames)"
| "exec U m (Vectorise lookback step) = m"
| "exec U m (Augment n_augments v_step) = snd (augment m n_augments v_step)"

fun run :: "unicode_tables \<Rightarrow> midi \<Rightarrow> call list \<Rightarrow> midi" where
  "run U m [] = m"
| "run U m (c # cs) = run U (exec U m c) cs"

text \<open>
  For stating what \<open>load_midi\<close> merges: the rolls of the files that keep at least one
  piano track, in input order, each cut to the window when \<open>cut\<close> is set.
\<close>

definition kept_rolls :: "unicode_tables \<Rightarrow> midi \<Rightarrow> multitrack list \<Rightarrow> bool array2 list" where
  "kept_rolls U m fnames =
     map (\<lambda>f. let r = blend_any (filter (keep_track U) (tracks f))
              in if cut m then cut_window m r else r)
       (filter (\<lambda>f. filter (keep_track U) (tracks f) \<noteq> []) fnames)"

section \<open>Example inputs\<close>

text \<open>Concrete tracks, files and arrays on which the theorems below are instantiated.\<close>

definition demo_bass :: track where
  "demo_bass = \<lparr>name = py_str ''Fretless BASS-2'', program = 50, is_drum_flag = False, pianoroll = []\<rparr>"

definition demo_piano :: track where
  "demo_piano = \<lparr>name = py_str ''Melody'', program = 0, is_drum_flag = False,
     pianoroll = [replicate 60 False @ [True] @ replicate 67 False]\<rparr>"

definition demo_np :: "bool ndarray" where
  "demo_np = \<lparr>shape = [2, 3], flat = [True, False, False, False, True, False]\<rparr>"

definition demo_roll :: "bool array2" where
  "demo_roll = \<lparr>ncols = 2,
     rows = [[True, False], [False, True], [True, True], [False, False], [True, False]]\<rparr>"

definition demo_midi :: midi where
  "demo_midi = \<lparr>beat_resolution = 24, num_pitches = 2, notes_above = 1, cut = True,
     tempo = Some 120, roll = Some demo_roll\<rparr>"

definition demo_full :: "bool array2" where
  "demo_full = \<lparr>ncols = 128,
     rows = [replicate 10 False @ [True] @ replicate 51 False @ [True, False, False, True] @
             replicate 62 False]\<rparr>"

definition demo_cut_midi :: midi where
  "demo_cut_midi = \<lparr>beat_resolution = 24, num_pitches = 4, notes_above = 2, cut = True,
     tempo = Some 120, roll = Some \<lparr>ncols = 4, rows = [[True, False, False, True]]\<rparr>\<rparr>"

definition demo_file :: multitrack where
  "demo_file = \<lparr>tracks = [demo_piano, demo_bass], tempo_mean = 120\<rparr>"

section \<open>Properties\<close>

subsection \<open>Substring search\<close>

lemma py_in_iff: "py_in n t \<longleftrightarrow> (\<exists>ps ss. t = ps @ n @ ss)"
proof (induction t)
  case Nil
  show ?case by auto
next
  case (Cons c cs)
  have "take (length n) (c # cs) = n \<longleftrightarrow> (\<exists>ss. c # cs = n @ ss)"
    by (metis append_eq_conv_conj append_take_drop_id)
  moreover have "(\<exists>ps ss. c # cs = ps @ n @ ss) \<longleftrightarrow>
      (\<exists>ss. c # cs = n @ ss) \<or> (\<exists>ps ss. cs = ps @ n @ ss)"
  proof
    assume "\<exists>ps ss. c # cs = ps @ n @ ss"
    then obtain ps ss where eq: "c # cs = ps @ n @ ss" by blast
    show "(\<exists>ss. c # cs = n @ ss) \<or> (\<exists>ps ss. cs = ps @ n @ ss)"
    proof (cases ps)
      case Nil
      with eq show ?thesis by auto
    next
      case (Cons p ps')
      with eq have "cs = ps' @ n @ ss" by simp
      then show ?thesis by blast
    qed
  next
    assume "(\<exists>ss. c # cs = n @ ss) \<or> (\<exists>ps ss. cs = ps @ n @ ss)"
    then show "\<exists>ps ss. c # cs = ps @ n @ ss"
    proof
      assume "\<exists>ss. c # cs = n @ ss"
      then obtain ss where "c # cs = [] @ n @ ss" by auto
      then show ?thesis by blast
    next
      assume "\<exists>ps ss. cs = ps @ n @ ss"
      then obtain ps ss where "c # cs = (c # ps) @ n @ ss" by auto
      then show ?thesis by blast
    qed
  qed
  ultimately show ?case using Cons.IH by simp
qed

lemma name_match_iff: "name_match ns t \<longleftrightarrow> list_ex (\<lambda>n. py_in n t) ns"
  by (induction ns) auto

subsection \<open>Classification of tracks\<close>

lemma classify_total: "\<exists>c. classify U t = Some c"
proof -
  have "is_piano U t \<or> is_bass U t \<or> is_other U t"
    by (auto simp: is_piano_def is_bass_def is_other_def Let_def)
  then show ?thesis by (auto simp: classify_def)
qed

lemma analyse_None_iff:
  "analyse U a ts = None \<longleftrightarrow> list_ex (\<lambda>t. classify U t = None) ts"
  by (induction ts arbitrary: a) (auto split: option.splits)

lemma count_total: "total (count a c) = total a + 1"
  by (cases c) (simp_all add: total_def)

lemma analyse_total:
  "analyse U a ts = Some a' \<Longrightarrow> total a' = total a + length ts"
proof (induction ts arbitrary: a)
  case Nil
  then show ?case by simp
next
  case (Cons t ts)
  then show ?case
    by (auto simp: count_total split: option.splits)
qed

lemma load_loop_Aborted_iff:
  "snd (load_loop U m fs rolls n) = Aborted \<longleftrightarrow>
     list_ex (\<lambda>f. list_ex (\<lambda>t. classify U t = None) (tracks f)) fs"
proof (induction fs arbitrary: m rolls n)
  case Nil
  show ?case by simp
next
  case (Cons f fs)
  show ?case
    by (simp add: Let_def analyse_None_iff Cons.IH split: option.splits)
       (metis analyse_None_iff option.distinct(1))
qed

lemma load_midi_sentinel_iff:
  "fst (load_midi U m fs) = Inr (PyInt (- 1)) \<longleftrightarrow> snd (load_loop U m fs [] 0) = Aborted"
  by (auto simp: load_midi_def split: prod.splits loop_result.splits sum.splits)

lemma classify_None_iff:
  "classify U t = None \<longleftrightarrow> \<not> is_piano U t \<and> \<not> is_bass U t \<and> \<not> is_drum U t \<and> \<not> is_other U t"
  by (simp add: classify_def)

subsection \<open>C1: names first, program ranges as the fallback\<close>

text \<open>
  Claim C1. Each of the four predicates answers True when one of its curated names occurs
  in the cleaned track name, and only otherwise answers by its fallback: program below
  32 for piano, program 32 to 39 for bass, program above 39 for other, the drum flag for
  drum. A name list matches exactly when one of its names is a contiguous substring of the
  cleaned name. (\<open>is_piano\<close> tests the program before the names; the value it returns is
  the same.) This holds for every track name, ASCII or not, and for all Unicode tables.
\<close>

theorem classifier_names_then_program:
  "is_piano U track =
     (if name_match PIANO_NAMES (remove_non_ascii U (lower U (name track))) then True
      else program track < 32) \<and>
   is_bass U track =
     (if name_match BASS_NAMES (remove_non_ascii U (lower U (name track))) then True
      else 32 \<le> program track \<and> program track \<le> 39) \<and>
   is_other U track =
     (if name_match OTHER_NAMES (remove_non_ascii U (lower U (name track))) then True
      else 39 < program track) \<and>
   is_drum U track =
     (if name_match DRUM_NAMES (remove_non_ascii U (lower U (name track))) then True
      else is_drum_flag track) \<and>
   (name_match ns t \<longleftrightarrow> (\<exists>n \<in> set ns. \<exists>ps ss. t = ps @ n @ ss))"
proof -
  have "name_match ns t \<longleftrightarrow> (\<exists>n \<in> set ns. \<exists>ps ss. t = ps @ n @ ss)"
    by (simp add: name_match_iff list_ex_iff py_in_iff)
  moreover have "(32 \<le> program track \<and> program track \<le> 39) =
      (program track > 31 \<and> program track < 40)"
    by auto
  ultimately show ?thesis
    by (simp add: is_piano_def is_bass_def is_other_def is_drum_def Let_def)
qed

theorem classifier_names_then_program_witness:
  "\<forall>U. is_bass U demo_bass \<and> is_other U demo_bass \<and> \<not> is_piano U demo_bass \<and>
     \<not> is_drum U demo_bass"
proof
  fix U
  have b: "name_match BASS_NAMES (remove_non_ascii U (lower U (name demo_bass)))"
    by code_simp
  have o: "\<not> name_match OTHER_NAMES (remove_non_ascii U (lower U (name demo_bass)))"
    by code_simp
  have p: "\<not> name_match PIANO_NAMES (remove_non_ascii U (lower U (name demo_bass)))"
    by code_simp
  have d: "\<not> name_match DRUM_NAMES (remove_non_ascii U (lower U (name demo_bass)))"
    by code_simp
  have v: "program demo_bass = 50" "\<not> is_drum_flag demo_bass"
    by (simp_all add: demo_bass_def)
  show "is_bass U demo_bass \<and> is_other U demo_bass \<and> \<not> is_piano U demo_bass \<and>
     \<not> is_drum U demo_bass"
    using classifier_names_then_program [where U = U and track = demo_bass
        and ns = "[] :: pystr list" and t = "[]"] b o p d v
    by simp
qed

text \<open>
  A name with a letter outside ASCII: b, e-acute (code point 233), a, s, s, with program
  50. Python's tables call code point 233 alphabetic and lowercase, so the cleaned name
  keeps it, no bass name occurs in it, and the track is not a bass track.
\<close>

lemma non_ascii_letter_is_kept:
  assumes "uni_isalpha U 233" and "uni_lower U [98, 233, 97, 115, 115] = [98, 233, 97, 115, 115]"
  shows "remove_non_ascii U (lower U [98, 233, 97, 115, 115]) = [98, 233, 97, 115, 115]"
    and "\<not> is_bass U \<lparr>name = [98, 233, 97, 115, 115], program = 50, is_drum_flag = False,
                        pianoroll = []\<rparr>"
proof -
  have l: "lower U [98, 233, 97, 115, 115] = [98, 233, 97, 115, 115]"
    using assms(2) by (simp add: lower_def)
  show c: "remove_non_ascii U (lower U [98, 233, 97, 115, 115]) = [98, 233, 97, 115, 115]"
    using assms(1) by (simp add: l remove_non_ascii_def isalpha_def)
  have "\<not> name_match BASS_NAMES [98, 233, 97, 115, 115 :: nat]"
    by (simp add: BASS_NAMES_def py_str_def)
  then show "\<not> is_bass U \<lparr>name = [98, 233, 97, 115, 115], program = 50, is_drum_flag = False,
                        pianoroll = []\<rparr>"
    by (simp add: is_bass_def c)
qed

subsection \<open>C6: one category per track, and the sentinel\<close>

text \<open>
  Claim C6. The chain in the track loop of \<open>load_midi\<close> gives every track exactly one
  category, the first of piano, bass, drums, other whose predicate holds; each track
  adds one to exactly one counter, so the four counters together count the tracks.
  \<open>load_midi\<close> returns -1 exactly when some track of some file satisfies none of the
  four predicates. (Since the three program ranges cover every integer, no track is
  without a category: \<open>classify_total\<close>.)
\<close>

theorem classification_exclusive_and_sentinel:
  "(\<exists>c. classify U t = Some c) \<and>
   (classify U t = Some Piano \<longleftrightarrow> is_piano U t) \<and>
   (classify U t = Some Bass \<longleftrightarrow> \<not> is_piano U t \<and> is_bass U t) \<and>
   (classify U t = Some Drums \<longleftrightarrow> \<not> is_piano U t \<and> \<not> is_bass U t \<and> is_drum U t) \<and>
   (classify U t = Some Other \<longleftrightarrow> \<not> is_piano U t \<and> \<not> is_bass U t \<and> \<not> is_drum U t \<and> is_other U t) \<and>
   (analyse U a ts = Some a' \<longrightarrow> total a' = total a + length ts) \<and>
   (fst (load_midi U m fnames) = Inr (PyInt (- 1)) \<longleftrightarrow>
      (\<exists>f \<in> set fnames. \<exists>x \<in> set (tracks f).
         \<not> is_piano U x \<and> \<not> is_bass U x \<and> \<not> is_drum U x \<and> \<not> is_other U x))"
proof -
  have "fst (load_midi U m fnames) = Inr (PyInt (- 1)) \<longleftrightarrow>
      (\<exists>f \<in> set fnames. \<exists>x \<in> set (tracks f). classify U x = None)"
    by (simp add: load_midi_sentinel_iff load_loop_Aborted_iff list_ex_iff)
  moreover have "classify U t = Some Piano \<longleftrightarrow> is_piano U t"
    by (simp add: classify_def)
  moreover have "classify U t = Some Bass \<longleftrightarrow> \<not> is_piano U t \<and> is_bass U t"
    by (simp add: classify_def)
  moreover have "classify U t = Some Drums \<longleftrightarrow> \<not> is_piano U t \<and> \<not> is_bass U t \<and> is_drum U t"
    by (simp add: classify_def)
  moreover have "classify U t = Some Other \<longleftrightarrow>
      \<not> is_piano U t \<and> \<not> is_bass U t \<and> \<not> is_drum U t \<and> is_other U t"
    by (simp add: classify_def)
  moreover have "analyse U a ts = Some a' \<longrightarrow> total a' = total a + length ts"
    by (simp add: analyse_total)
  ultimately show ?thesis
    using classify_total [of U t] by (simp add: classify_None_iff)
qed

theorem classification_exclusive_and_sentinel_witness:
  "\<forall>U. classify U demo_bass = Some Bass \<and>
     fst (load_midi U (init 60 24 True) [\<lparr>tracks = [demo_bass, demo_piano], tempo_mean = 120\<rparr>])
       \<noteq> Inr (PyInt (- 1))"
proof
  fix U
  have b: "is_bass U demo_bass" "\<not> is_piano U demo_bass" "is_piano U demo_piano"
    by code_simp+
  show "classify U demo_bass = Some Bass \<and>
     fst (load_midi U (init 60 24 True) [\<lparr>tracks = [demo_bass, demo_piano], tempo_mean = 120\<rparr>])
       \<noteq> Inr (PyInt (- 1))"
    using classification_exclusive_and_sentinel [where U = U and t = demo_bass
        and m = "init 60 24 True"
        and fnames = "[\<lparr>tracks = [demo_bass, demo_piano], tempo_mean = 120\<rparr>]"] b
    by simp
qed

subsection \<open>C8: augment without a roll\<close>

text \<open>
  Claim C8. When no roll is loaded, \<open>augment\<close> returns \<open>None\<close> without raising and
  leaves every field of the object as it was, whatever its arguments.
\<close>

theorem augment_without_roll_noop:
  "roll m = None \<Longrightarrow> augment m n_augments v_step = (Inr PyNone, m)"
  by (simp add: augment_def)

theorem augment_without_roll_noop_witness:
  "roll (init 60 24 True) = None \<and> augment (init 60 24 True) 2 5 = (Inr PyNone, init 60 24 True)"
proof -
  have h: "roll (init 60 24 True) = None" by (simp add: init_def)
  show ?thesis using h augment_without_roll_noop [OF h, of 2 5] by simp
qed

subsection \<open>C10: notes_above is half of num_pitches\<close>

lemma load_loop_fields:
  "num_pitches (fst (load_loop U m fs rolls n)) = num_pitches m \<and>
   notes_above (fst (load_loop U m fs rolls n)) = notes_above m \<and>
   cut (fst (load_loop U m fs rolls n)) = cut m \<and>
   roll (fst (load_loop U m fs rolls n)) = roll m \<and>
   beat_resolution (fst (load_loop U m fs rolls n)) = beat_resolution m"
  by (induction fs arbitrary: m rolls n) (auto simp: Let_def split: option.splits)

lemma load_midi_fields:
  "num_pitches (snd (load_midi U m fs)) = num_pitches m \<and>
   notes_above (snd (load_midi U m fs)) = notes_above m \<and>
   cut (snd (load_midi U m fs)) = cut m"
  using load_loop_fields [of U m fs "[]" 0]
  by (auto simp: load_midi_def split: prod.splits loop_result.splits sum.splits)

lemma augment_fields:
  "num_pitches (snd (augment m n v)) = num_pitches m \<and>
   notes_above (snd (augment m n v)) = notes_above m \<and>
   cut (snd (augment m n v)) = cut m \<and>
   tempo (snd (augment m n v)) = tempo m"
  by (auto simp: augment_def split: option.splits sum.splits)

lemma load_np_half:
  "notes_above m = num_pitches m div 2 \<Longrightarrow>
   notes_above (snd (load_np m a tmp)) = num_pitches (snd (load_np m a tmp)) div 2"
  by (auto simp: load_np_def Let_def)

lemma exec_half:
  "notes_above m = num_pitches m div 2 \<Longrightarrow>
   notes_above (exec U m c) = num_pitches (exec U m c) div 2"
  by (cases c) (simp_all add: load_np_half load_midi_fields augment_fields)

lemma run_half:
  "notes_above m = num_pitches m div 2 \<Longrightarrow>
   notes_above (run U m cs) = num_pitches (run U m cs) div 2"
  by (induction cs arbitrary: m) (simp_all add: exec_half)

text \<open>
  Claim C10. \<open>notes_above = num_pitches // 2\<close> holds after the constructor and after
  every sequence of \<open>load_np\<close>, \<open>load_midi\<close>, \<open>vectorise\<close> and \<open>augment\<close> calls on
  the constructed object, whether a call returns or raises. \<open>load_np\<close> re-establishes
  it when it overwrites \<open>num_pitches\<close> with the width of a roll narrower than 128;
  \<open>load_midi\<close>, \<open>augment\<close> and \<open>vectorise\<close> change neither field.
\<close>

theorem notes_above_invariant:
  "notes_above (init np br c) = num_pitches (init np br c) div 2 \<and>
   notes_above (run U (init np br c) cs) = num_pitches (run U (init np br c) cs) div 2 \<and>
   (length (shape a) = 2 \<and> shape a ! 1 < MIDI_INPUTS \<longrightarrow>
      num_pitches (snd (load_np m a tmp)) = int (shape a ! 1) \<and>
      notes_above (snd (load_np m a tmp)) = num_pitches (snd (load_np m a tmp)) div 2) \<and>
   num_pitches (snd (load_midi U m fnames)) = num_pitches m \<and>
   notes_above (snd (load_midi U m fnames)) = notes_above m \<and>
   num_pitches (snd (augment m n_augments v_step)) = num_pitches m \<and>
   notes_above (snd (augment m n_augments v_step)) = notes_above m \<and>
   num_pitches (exec U m (Vectorise lookback step)) = num_pitches m \<and>
   notes_above (exec U m (Vectorise lookback step)) = notes_above m"
proof -
  have i: "notes_above (init np br c) = num_pitches (init np br c) div 2"
    by (simp add: init_def)
  have "length (shape a) = 2 \<and> shape a ! 1 < MIDI_INPUTS \<longrightarrow>
      num_pitches (snd (load_np m a tmp)) = int (shape a ! 1) \<and>
      notes_above (snd (load_np m a tmp)) = num_pitches (snd (load_np m a tmp)) div 2"
    by (simp add: load_np_def Let_def)
  then show ?thesis
    using i run_half [OF i] load_midi_fields [of U m fnames] augment_fields [of m n_augments v_step]
    by simp
qed

theorem notes_above_invariant_witness:
  "\<forall>U. num_pitches (snd (load_np (init 60 24 True) demo_np 120)) = 3 \<and>
     notes_above (snd (load_np (init 60 24 True) demo_np 120)) = 1 \<and>
     notes_above (run U (init 60 24 True) [Load_np demo_np 120, Augment 2 5, Vectorise 1 1]) = 1"
proof
  fix U
  have s: "length (shape demo_np) = 2 \<and> shape demo_np ! 1 < MIDI_INPUTS"
    by (simp add: demo_np_def MIDI_INPUTS_def)
  have r: "num_pitches (run U (init 60 24 True) [Load_np demo_np 120, Augment 2 5, Vectorise 1 1]) = 3"
    by (simp add: augment_fields load_np_def Let_def demo_np_def MIDI_INPUTS_def)
  show "num_pitches (snd (load_np (init 60 24 True) demo_np 120)) = 3 \<and>
     notes_above (snd (load_np (init 60 24 True) demo_np 120)) = 1 \<and>
     notes_above (run U (init 60 24 True) [Load_np demo_np 120, Augment 2 5, Vectorise 1 1]) = 1"
    using notes_above_invariant [where U = U and np = 60 and br = 24 and c = True
        and cs = "[Load_np demo_np 120, Augment 2 5, Vectorise 1 1]"
        and a = demo_np and m = "init 60 24 True" and tmp = 120] s r
    by (simp add: demo_np_def)
qed

subsection \<open>The width of the stored roll\<close>

lemma set_rows_ncols: "set_rows dest start stop src = Inr dest' \<Longrightarrow> ncols dest' = ncols dest"
  by (auto simp: set_rows_def split: prod.splits sum.splits)

lemma merge_loop_ncols:
  "merge_loop extended index rs = Inr extended' \<Longrightarrow> ncols extended' = ncols extended"
proof (induction rs arbitrary: extended index)
  case Nil
  then show ?case by simp
next
  case (Cons r rs)
  then show ?case
    by (auto split: sum.splits dest: set_rows_ncols)
qed

lemma load_loop_num_pitches:
  "num_pitches (fst (load_loop U m fs rolls n)) = num_pitches m"
  by (induction fs arbitrary: m rolls n) (auto simp: Let_def split: option.splits)

text \<open>
  Both loaders leave the object with a roll as wide as \<open>num_pitches\<close>: \<open>load_midi\<close>
  whenever it returns \<open>None\<close>, \<open>load_np\<close> whenever the roll is narrower than 128.
\<close>

lemma load_midi_roll_width:
  assumes "load_midi U m fnames = (Inr PyNone, m')"
  shows "\<exists>r. roll m' = Some r \<and> int (ncols r) = num_pitches m'"
proof -
  obtain m1 res where l: "load_loop U m fnames [] 0 = (m1, res)"
    by (cases "load_loop U m fnames [] 0")
  from assms l obtain rolls n ext ext' where
    "np_zeros2 False (int n) (num_pitches m1) = Inr ext"
    "merge_loop ext 0 rolls = Inr ext'" "m' = m1\<lparr>roll := Some ext'\<rparr>"
    by (auto simp: load_midi_def split: loop_result.splits sum.splits)
  moreover from this have "int (ncols ext) = num_pitches m1"
    by (auto simp: np_zeros2_def split: if_splits)
  ultimately show ?thesis
    by (auto dest: merge_loop_ncols)
qed

lemma load_np_roll_width:
  assumes "shape a = [l, w]" and "w < MIDI_INPUTS"
  shows "\<exists>r. load_np m a tmp = (Inr PyNone, snd (load_np m a tmp)) \<and>
     roll (snd (load_np m a tmp)) = Some r \<and>
     int (ncols r) = num_pitches (snd (load_np m a tmp))"
  using assms by (simp add: load_np_def Let_def to_array2_def)

subsection \<open>Ranges\<close>

lemma ceil_div_int:
  fixes a b :: int
  assumes "0 < b"
  shows "\<lceil>of_int a / (of_int b :: real)\<rceil> = (a + b - 1) div b"
proof -
  let ?q = "a div b" and ?r = "a mod b"
  have r: "0 \<le> ?r" "?r < b" using assms by simp_all
  have c: "\<lceil>of_int a / (of_int b :: real)\<rceil> = - (- a div b)"
    by (rule ceiling_divide_eq_div)
  show ?thesis
  proof (cases "?r = 0")
    case True
    have "a + b - 1 = b * ?q + (b - 1)"
      using True mult_div_mod_eq [of b a] by linarith
    then have "(a + b - 1) div b = ?q"
      using assms by (intro int_div_pos_eq [where r = "b - 1"]) simp_all
    moreover have "- a div b = - ?q"
      using True assms by (simp add: zdiv_zminus1_eq_if)
    ultimately show ?thesis using c by simp
  next
    case False
    have "a + b - 1 = b * (?q + 1) + (?r - 1)"
      using mult_div_mod_eq [of b a] by (simp add: distrib_left)
    then have "(a + b - 1) div b = ?q + 1"
      using assms r False by (intro int_div_pos_eq [where r = "?r - 1"]) simp_all
    moreover have "- a div b = - ?q - 1"
      using False assms by (simp add: zdiv_zminus1_eq_if)
    ultimately show ?thesis using c by simp
  qed
qed

lemma range_up_map:
  "0 < step \<Longrightarrow>
   range_up i stop step =
     map (\<lambda>k. i + int k * step) [0..<nat ((stop - i + step - 1) div step)]"
proof (induction i stop step rule: range_up.induct)
  case (1 i stop step)
  show ?case
  proof (cases "i < stop")
    case True
    let ?c = "nat ((stop - (i + step) + step - 1) div step)"
    have "stop - i + step - 1 = (stop - (i + step) + step - 1) + step"
      by simp
    then have "(stop - i + step - 1) div step = (stop - (i + step) + step - 1) div step + 1"
      using "1.prems" by (simp only: div_add_self2)
    moreover have "0 \<le> (stop - (i + step) + step - 1) div step"
      using True "1.prems" by (simp add: pos_imp_zdiv_nonneg_iff)
    ultimately have c: "nat ((stop - i + step - 1) div step) = Suc ?c"
      by simp
    have "range_up i stop step = i # range_up (i + step) stop step"
      using True "1.prems" by (simp add: range_up.simps [of i stop step])
    also have "range_up (i + step) stop step = map (\<lambda>k. i + step + int k * step) [0..<?c]"
      using "1.IH" True "1.prems" by simp
    also have "i # map (\<lambda>k. i + step + int k * step) [0..<?c] =
        map (\<lambda>k. i + int k * step) [0..<Suc ?c]"
      by (simp add: upt_conv_Cons map_Suc_upt [symmetric] algebra_simps del: upt_Suc)
    finally show ?thesis by (simp only: c)
  next
    case False
    then have "(stop - i + step - 1) div step \<le> (step - 1) div step"
      using "1.prems" by (intro zdiv_mono1) simp_all
    also have "(step - 1) div step = 0"
      using "1.prems" by (simp add: div_pos_pos_trivial)
    finally show ?thesis
      using False by (simp add: range_up.simps [of i stop step])
  qed
qed

lemma range_up_bounds:
  "i \<in> set (range_up start stop step) \<Longrightarrow> start \<le> i \<and> i < stop"
proof (induction start stop step rule: range_up.induct)
  case (1 i0 stop step)
  show ?case
  proof (cases "0 < step \<and> i0 < stop")
    case True
    with "1.prems" have "i = i0 \<or> i \<in> set (range_up (i0 + step) stop step)"
      by (simp add: range_up.simps [of i0 stop step])
    then show ?thesis using "1.IH" True by auto
  next
    case False
    with "1.prems" show ?thesis by (simp add: range_up.simps [of i0 stop step])
  qed
qed

subsection \<open>Slices, indexing and the loops of vectorise\<close>

lemma py_slice_window:
  "0 \<le> i \<Longrightarrow> 0 \<le> w \<Longrightarrow> i + w \<le> int (length xs) \<Longrightarrow>
   py_slice i (i + w) xs = take (nat w) (drop (nat i) xs)"
proof -
  assume a: "0 \<le> i" "0 \<le> w" "i + w \<le> int (length xs)"
  then have "slice_bounds (length xs) i (i + w) = (nat i, nat i + nat w)"
    by (auto simp: slice_bounds_def norm_bound_def Let_def nat_add_distrib)
  then show ?thesis by (simp add: py_slice_def)
qed

lemma py_index_in_range:
  "0 \<le> i \<Longrightarrow> i < int (length xs) \<Longrightarrow> py_index xs i = Inr (xs ! nat i)"
  by (simp add: py_index_def)

lemma collect_in_range:
  assumes "0 \<le> w" and "\<forall>i \<in> set is. 0 \<le> i \<and> i + w < int (nrows r)"
  shows "collect r w is =
     Inr (map (\<lambda>i. \<lparr>ncols = ncols r, rows = take (nat w) (drop (nat i) (rows r))\<rparr>) is,
          map (\<lambda>i. rows r ! nat (i + w)) is)"
  using assms(2)
proof (induction "is")
  case Nil
  show ?case by simp
next
  case (Cons i "is")
  from Cons.prems have i: "0 \<le> i" "i + w < int (length (rows r))"
    by (simp_all add: nrows_def)
  have "py_slice i (i + w) (rows r) = take (nat w) (drop (nat i) (rows r))"
    using i assms(1) by (intro py_slice_window) simp_all
  moreover have "py_index (rows r) (i + w) = Inr (rows r ! nat (i + w))"
    using i assms(1) by (intro py_index_in_range) simp_all
  moreover have "collect r w is =
     Inr (map (\<lambda>i. \<lparr>ncols = ncols r, rows = take (nat w) (drop (nat i) (rows r))\<rparr>) is,
          map (\<lambda>i. rows r ! nat (i + w)) is)"
    using Cons by simp
  ultimately show ?case by (simp add: Let_def)
qed

lemma broadcast2_same:
  "nrows src = h \<Longrightarrow> ncols src = w \<Longrightarrow> broadcast2 h w src = Inr (rows src)"
  by (simp add: broadcast2_def)

lemma broadcast1_same: "length xs = w \<Longrightarrow> broadcast1 w xs = Inr xs"
  by (simp add: broadcast1_def)

lemma take_Suc_update: "i < length xs \<Longrightarrow> take (Suc i) (xs[i := b]) = take i xs @ [b]"
  by (simp add: take_Suc_conv_app_nth)

lemma fill_same_shape:
  assumes "length ps = length ls"
    and "i + length ps \<le> length (blocks x)" and "i + length ps \<le> length (rows y)"
    and "\<forall>p \<in> set ps. nrows p = dim1 x \<and> ncols p = dim2 x"
    and "\<forall>l \<in> set ls. length l = ncols y"
  shows "fill x y i ps ls =
     Inr (x\<lparr>blocks := take i (blocks x) @ map rows ps @ drop (i + length ps) (blocks x)\<rparr>,
          y\<lparr>rows := take i (rows y) @ ls @ drop (i + length ps) (rows y)\<rparr>)"
  using assms
proof (induction ps ls arbitrary: x y i rule: list_induct2)
  case Nil
  show ?case by simp
next
  case (Cons p ps l ls)
  let ?x = "x\<lparr>blocks := (blocks x)[i := rows p]\<rparr>"
  let ?y = "y\<lparr>rows := (rows y)[i := l]\<rparr>"
  from Cons.prems have i: "i < length (blocks x)" "i < length (rows y)"
    by simp_all
  have b: "broadcast2 (dim1 x) (dim2 x) p = Inr (rows p)" "broadcast1 (ncols y) l = Inr l"
    using Cons.prems by (simp_all add: broadcast2_same broadcast1_same)
  have "fill ?x ?y (Suc i) ps ls =
     Inr (?x\<lparr>blocks := take (Suc i) (blocks ?x) @ map rows ps @ drop (Suc i + length ps) (blocks ?x)\<rparr>,
          ?y\<lparr>rows := take (Suc i) (rows ?y) @ ls @ drop (Suc i + length ps) (rows ?y)\<rparr>)"
    using Cons.prems by (intro Cons.IH) simp_all
  then show ?case
    using b i by (simp add: take_Suc_update)
qed

lemma wf_array2_row: "wf_array2 a \<Longrightarrow> i < nrows a \<Longrightarrow> length (rows a ! i) = ncols a"
  by (simp add: wf_array2_def nrows_def list_all_length)

lemma vectorise_windows:
  assumes r: "roll m = Some r" and wf: "wf_array2 r" and np: "int (ncols r) = num_pitches m"
    and w: "0 \<le> w" and s: "0 < s"
  shows "vectorise m w s =
     Inr (\<lparr>dim1 = nat w, dim2 = ncols r,
            blocks = map (\<lambda>i. take (nat w) (drop (nat i) (rows r)))
                       (range_up 0 (int (nrows r) - w) s)\<rparr>,
          \<lparr>ncols = ncols r,
            rows = map (\<lambda>i. rows r ! nat (i + w)) (range_up 0 (int (nrows r) - w) s)\<rparr>)"
proof -
  let ?is = "range_up 0 (int (nrows r) - w) s"
  let ?ps = "map (\<lambda>i. \<lparr>ncols = ncols r, rows = take (nat w) (drop (nat i) (rows r))\<rparr>) ?is"
  let ?ls = "map (\<lambda>i. rows r ! nat (i + w)) ?is"
  let ?x = "\<lparr>dim1 = nat w, dim2 = ncols r,
             blocks = replicate (length ?is) (replicate (nat w) (replicate (ncols r) False))\<rparr>"
  let ?y = "\<lparr>ncols = ncols r, rows = replicate (length ?is) (replicate (ncols r) False)\<rparr>"
  have bounds: "\<forall>i \<in> set ?is. 0 \<le> i \<and> i + w < int (nrows r)"
    using range_up_bounds [of _ 0 "int (nrows r) - w" s] by fastforce
  have range: "py_range 0 (int (nrows r) - w) s = Inr ?is"
    using s by (simp add: py_range_def)
  have coll: "collect r w ?is = Inr (?ps, ?ls)"
    using w bounds by (rule collect_in_range)
  have z3: "np_zeros3 False (int (length ?ps)) w (num_pitches m) = Inr ?x"
    using w np [symmetric] by (simp add: np_zeros3_def)
  have z2: "np_zeros2 False (int (length ?ps)) (num_pitches m) = Inr ?y"
    using np [symmetric] by (simp add: np_zeros2_def)
  have shapes: "\<forall>p \<in> set ?ps. nrows p = dim1 ?x \<and> ncols p = dim2 ?x"
    using bounds w by (auto simp: nrows_def)
  have labels: "\<forall>l \<in> set ?ls. length l = ncols ?y"
  proof
    fix l assume "l \<in> set ?ls"
    then obtain i where i: "i \<in> set ?is" and l: "l = rows r ! nat (i + w)" by auto
    from i bounds w have "nat (i + w) < nrows r" by auto
    with wf l show "length l = ncols ?y" by (simp add: wf_array2_row)
  qed
  have "fill ?x ?y 0 ?ps ?ls =
     Inr (?x\<lparr>blocks := take 0 (blocks ?x) @ map rows ?ps @ drop (0 + length ?ps) (blocks ?x)\<rparr>,
          ?y\<lparr>rows := take 0 (rows ?y) @ ?ls @ drop (0 + length ?ps) (rows ?y)\<rparr>)"
    using shapes labels by (intro fill_same_shape) simp_all
  then have "fill ?x ?y 0 ?ps ?ls =
     Inr (\<lparr>dim1 = nat w, dim2 = ncols r,
            blocks = map (\<lambda>i. take (nat w) (drop (nat i) (rows r))) ?is\<rparr>,
          \<lparr>ncols = ncols r, rows = ?ls\<rparr>)"
    by (simp add: comp_def)
  then show ?thesis
    using r range coll z3 z2 by (simp add: vectorise_def)
qed

subsection \<open>C3: the phrase/label pairs of vectorise\<close>

text \<open>
  Claim C3. Let the object hold a roll of \<open>L\<close> rows whose width is the object's
  \<open>num_pitches\<close>, and let the lookback \<open>W\<close> be non-negative, the stride \<open>S\<close> positive
  and \<open>L > W\<close>. Then \<open>vectorise\<close> returns arrays \<open>x\<close> and \<open>y\<close> with exactly
  \<open>ceil((L - W) / S)\<close> entries, of shapes \<open>(count, W, num_pitches)\<close> and
  \<open>(count, num_pitches)\<close>; entry \<open>j\<close> starts at \<open>i = j * S\<close>, its phrase is
  \<open>roll[i : i + W]\<close> with \<open>W\<close> rows of \<open>num_pitches\<close> booleans, and its label is the
  row \<open>roll[i + W]\<close>, read inside the roll. Both arrays hold booleans by their type.
  (A roll stored by \<open>load_midi\<close> is as wide as \<open>num_pitches\<close>:
  \<open>load_midi_roll_width\<close>. With another width the copy into \<open>x\<close> raises ValueError.)
\<close>

theorem vectorise_phrase_label_pairs:
  assumes "roll m = Some r" and "wf_array2 r" and "int (ncols r) = num_pitches m"
    and "0 \<le> lookback" and "1 \<le> step" and "lookback < int (nrows r)"
  shows "\<exists>x y. vectorise m lookback step = Inr (x, y) \<and>
     int (length (blocks x)) = \<lceil>of_int (int (nrows r) - lookback) / (of_int step :: real)\<rceil> \<and>
     shape3 x = (length (blocks x), nat lookback, nat (num_pitches m)) \<and>
     shape2 y = (length (blocks x), nat (num_pitches m)) \<and>
     (\<forall>j < length (blocks x).
        int j * step + lookback < int (nrows r) \<and>
        blocks x ! j = py_slice (int j * step) (int j * step + lookback) (rows r) \<and>
        length (blocks x ! j) = nat lookback \<and>
        list_all (\<lambda>row. length row = nat (num_pitches m)) (blocks x ! j) \<and>
        py_index (rows r) (int j * step + lookback) = Inr (rows y ! j) \<and>
        length (rows y ! j) = nat (num_pitches m))"
proof -
  let ?stop = "int (nrows r) - lookback"
  let ?c = "nat ((?stop + step - 1) div step)"
  let ?x = "\<lparr>dim1 = nat lookback, dim2 = ncols r,
             blocks = map (\<lambda>i. take (nat lookback) (drop (nat i) (rows r)))
                        (range_up 0 ?stop step)\<rparr>"
  let ?y = "\<lparr>ncols = ncols r,
             rows = map (\<lambda>i. rows r ! nat (i + lookback)) (range_up 0 ?stop step)\<rparr>"
  have s: "0 < step" using assms(5) by simp
  have v: "vectorise m lookback step = Inr (?x, ?y)"
    using assms(1-4) s by (rule vectorise_windows)
  have idx: "range_up 0 ?stop step = map (\<lambda>k. int k * step) [0..<?c]"
    using range_up_map [OF s, of 0 ?stop] by simp
  have len: "length (blocks ?x) = ?c" "length (rows ?y) = ?c"
    by (simp_all add: idx)
  have "0 \<le> (?stop + step - 1) div step"
    using assms(6) s by (simp add: pos_imp_zdiv_nonneg_iff)
  then have "int (length (blocks ?x)) = (?stop + step - 1) div step"
    by (simp add: idx)
  also have "\<dots> = \<lceil>of_int ?stop / (of_int step :: real)\<rceil>"
    by (rule ceil_div_int [OF s, symmetric])
  finally have count:
    "int (length (blocks ?x)) = \<lceil>of_int ?stop / (of_int step :: real)\<rceil>" .
  have np: "nat (num_pitches m) = ncols r"
    using assms(3) by simp
  have each: "int j * step + lookback < int (nrows r) \<and>
        blocks ?x ! j = py_slice (int j * step) (int j * step + lookback) (rows r) \<and>
        length (blocks ?x ! j) = nat lookback \<and>
        list_all (\<lambda>row. length row = nat (num_pitches m)) (blocks ?x ! j) \<and>
        py_index (rows r) (int j * step + lookback) = Inr (rows ?y ! j) \<and>
        length (rows ?y ! j) = nat (num_pitches m)" if j: "j < ?c" for j
  proof -
    let ?i = "int j * step"
    have "?i \<in> set (range_up 0 ?stop step)"
      using j by (auto simp: idx)
    then have b: "0 \<le> ?i" "?i + lookback < int (nrows r)"
      using range_up_bounds [of ?i 0 ?stop step] by simp_all
    have bx: "blocks ?x ! j = take (nat lookback) (drop (nat ?i) (rows r))"
      using j by (simp add: idx)
    have ry: "rows ?y ! j = rows r ! nat (?i + lookback)"
      using j by (simp add: idx)
    have sl: "py_slice ?i (?i + lookback) (rows r) = take (nat lookback) (drop (nat ?i) (rows r))"
      using b assms(4) by (intro py_slice_window) (simp_all add: nrows_def)
    have ix: "py_index (rows r) (?i + lookback) = Inr (rows r ! nat (?i + lookback))"
      using b assms(4) by (intro py_index_in_range) (simp_all add: nrows_def)
    have l1: "length (take (nat lookback) (drop (nat ?i) (rows r))) = nat lookback"
      using b assms(4) by (simp add: nrows_def)
    have "set (take (nat lookback) (drop (nat ?i) (rows r))) \<subseteq> set (rows r)"
      by (meson set_take_subset set_drop_subset subset_trans)
    then have l2: "list_all (\<lambda>row. length row = ncols r)
        (take (nat lookback) (drop (nat ?i) (rows r)))"
      using assms(2) by (auto simp: wf_array2_def list_all_iff)
    have "nat (?i + lookback) < nrows r"
      using b assms(4) by simp
    then have l3: "length (rows r ! nat (?i + lookback)) = ncols r"
      using assms(2) by (simp add: wf_array2_row)
    show ?thesis
      using b(2) l1 l2 l3 by (simp only: bx ry sl ix np)
  qed
  have sh3: "shape3 ?x = (length (blocks ?x), nat lookback, nat (num_pitches m))"
    by (simp add: shape3_def np)
  have sh2: "shape2 ?y = (length (blocks ?x), nat (num_pitches m))"
    by (simp add: shape2_def nrows_def np)
  have all: "\<forall>j < length (blocks ?x).
        int j * step + lookback < int (nrows r) \<and>
        blocks ?x ! j = py_slice (int j * step) (int j * step + lookback) (rows r) \<and>
        length (blocks ?x ! j) = nat lookback \<and>
        list_all (\<lambda>row. length row = nat (num_pitches m)) (blocks ?x ! j) \<and>
        py_index (rows r) (int j * step + lookback) = Inr (rows ?y ! j) \<and>
        length (rows ?y ! j) = nat (num_pitches m)"
    unfolding len(1) using each by blast
  show ?thesis
    by (intro exI [of _ ?x] exI [of _ ?y] conjI v count sh3 sh2 all)
qed

theorem vectorise_phrase_label_pairs_witness:
  "\<exists>x y. vectorise demo_midi 2 2 = Inr (x, y) \<and> length (blocks x) = 2 \<and>
     shape3 x = (2, 2, 2) \<and> shape2 y = (2, 2) \<and>
     blocks x ! 1 = [[True, True], [False, False]] \<and> rows y ! 1 = [True, False]"
proof -
  have h: "roll demo_midi = Some demo_roll" "wf_array2 demo_roll"
    "int (ncols demo_roll) = num_pitches demo_midi" "(2::int) < int (nrows demo_roll)"
    by (simp_all add: demo_midi_def demo_roll_def wf_array2_def nrows_def)
  have e: "py_slice 2 4 (rows demo_roll) = [[True, True], [False, False]]"
    "py_index (rows demo_roll) 4 = Inr [True, False]"
    by (simp_all add: demo_roll_def py_slice_def slice_bounds_def norm_bound_def py_index_def)
  have c: "\<lceil>of_int (int (nrows demo_roll) - 2) / (of_int 2 :: real)\<rceil> = 2"
    by (simp add: demo_roll_def nrows_def)
  obtain x y where v: "vectorise demo_midi 2 2 = Inr (x, y)"
    and n: "int (length (blocks x)) = 2"
    and sh: "shape3 x = (length (blocks x), nat 2, nat (num_pitches demo_midi))"
      "shape2 y = (length (blocks x), nat (num_pitches demo_midi))"
    and each: "\<forall>j < length (blocks x).
        blocks x ! j = py_slice (int j * 2) (int j * 2 + 2) (rows demo_roll) \<and>
        py_index (rows demo_roll) (int j * 2 + 2) = Inr (rows y ! j)"
    using vectorise_phrase_label_pairs [OF h(1-3), of 2 2] h(4) c by auto
  from n have n2: "length (blocks x) = 2" by simp
  with each [rule_format, of 1] have "blocks x ! 1 = py_slice 2 4 (rows demo_roll)"
    "py_index (rows demo_roll) 4 = Inr (rows y ! 1)"
    by simp_all
  with e v n2 sh show ?thesis by (auto simp: demo_midi_def)
qed

subsection \<open>C9: a roll no longer than the lookback\<close>

text \<open>
  Claim C9. When the roll has \<open>L \<le> W\<close> rows (stride positive, \<open>num_pitches\<close>
  non-negative), the loop of \<open>vectorise\<close> visits no index, nothing is read out of
  bounds, and the result is the pair of empty arrays of shapes \<open>(0, W, num_pitches)\<close> and
  \<open>(0, num_pitches)\<close>. For every lookback and stride, each index \<open>i\<close> the loop visits
  has \<open>i + W\<close> below the roll length.
\<close>

theorem vectorise_short_roll_empty:
  assumes "roll m = Some r" and "int (nrows r) \<le> lookback" and "1 \<le> step"
    and "0 \<le> num_pitches m"
  shows "\<exists>x y. vectorise m lookback step = Inr (x, y) \<and>
     shape3 x = (0, nat lookback, nat (num_pitches m)) \<and>
     shape2 y = (0, nat (num_pitches m)) \<and>
     py_range 0 (int (nrows r) - lookback) step = Inr [] \<and>
     (\<forall>w s. \<forall>i \<in> set (range_up 0 (int (nrows r) - w) s). 0 \<le> i \<and> i + w < int (nrows r))"
proof -
  have e: "range_up 0 (int (nrows r) - lookback) step = []"
    using assms(2) by (simp add: range_up.simps [of 0 "int (nrows r) - lookback" step])
  then have p: "py_range 0 (int (nrows r) - lookback) step = Inr []"
    using assms(3) by (simp add: py_range_def)
  have w: "0 \<le> lookback" using assms(2) by simp
  have "vectorise m lookback step =
     Inr (\<lparr>dim1 = nat lookback, dim2 = nat (num_pitches m), blocks = []\<rparr>,
          \<lparr>ncols = nat (num_pitches m), rows = []\<rparr>)"
    using assms(1,4) p w by (simp add: vectorise_def np_zeros3_def np_zeros2_def)
  moreover have "\<forall>w s. \<forall>i \<in> set (range_up 0 (int (nrows r) - w) s). 0 \<le> i \<and> i + w < int (nrows r)"
    using range_up_bounds by fastforce
  ultimately show ?thesis
    using p by (simp add: shape3_def shape2_def nrows_def)
qed

theorem vectorise_short_roll_empty_witness:
  "\<exists>x y. vectorise demo_midi 5 1 = Inr (x, y) \<and> shape3 x = (0, 5, 2) \<and> shape2 y = (0, 2)"
proof -
  have h: "roll demo_midi = Some demo_roll" "int (nrows demo_roll) \<le> 5"
    "0 \<le> num_pitches demo_midi"
    by (simp_all add: demo_midi_def demo_roll_def nrows_def)
  show ?thesis
    using vectorise_short_roll_empty [OF h(1,2) _ h(3), of 1] by (auto simp: demo_midi_def)
qed

subsection \<open>C4: augment appends circularly shifted copies\<close>

lemma slice_bounds_inside:
  "lo + k \<le> n \<Longrightarrow> slice_bounds n (int lo) (int lo + int k) = (lo, lo + k)"
  by (simp add: slice_bounds_def norm_bound_def Let_def nat_add_distrib)

lemma set_rows_block:
  assumes "lo + nrows src \<le> nrows dest" and "ncols src = ncols dest"
  shows "set_rows dest (int lo) (int lo + int (nrows src)) src =
     Inr (dest\<lparr>rows := take lo (rows dest) @ rows src @ drop (lo + nrows src) (rows dest)\<rparr>)"
  using assms by (simp add: set_rows_def slice_bounds_inside broadcast2_same)

lemma splice_take:
  "lo + length b \<le> length xs \<Longrightarrow>
   take (lo + length b) (take lo xs @ b @ drop (lo + length b) xs) = take lo xs @ b"
  by simp

lemma splice_drop:
  "lo + length b \<le> length xs \<Longrightarrow> lo + length b \<le> k \<Longrightarrow>
   drop k (take lo xs @ b @ drop (lo + length b) xs) = drop k xs"
  by (simp add: min_absorb2)

lemma length_roll_row: "length (roll_row s xs) = length xs"
  by (simp add: roll_row_def)

lemma np_roll_shape: "nrows (np_roll a s) = nrows a" "ncols (np_roll a s) = ncols a"
  by (simp_all add: np_roll_def nrows_def)

lemma length_rows_np_roll: "length (rows (np_roll a s)) = length (rows a)"
  by (simp add: np_roll_def)

lemma np_roll_wf: "wf_array2 a \<Longrightarrow> wf_array2 (np_roll a s)"
  by (simp add: wf_array2_def np_roll_def list_all_iff length_roll_row)

lemma roll_row_wraps:
  assumes "j < length xs"
  shows "roll_row s xs ! nat ((int j + s) mod int (length xs)) = xs ! j"
proof -
  let ?n = "int (length xs)"
  let ?k = "nat ((int j + s) mod ?n)"
  have ne: "xs \<noteq> []"
    using assms by (cases xs) simp_all
  then have n: "0 < ?n" by simp
  have "(int j + s) mod ?n < ?n"
    using n by (rule pos_mod_bound)
  then have k: "?k < length xs"
    using ne by (simp add: nat_less_iff)
  have "(int ?k - s) mod ?n = ((int j + s) mod ?n - s) mod ?n"
    using n by simp
  also have "\<dots> = (int j + s - s) mod ?n"
    by (simp only: mod_diff_left_eq)
  also have "\<dots> = int j"
    using assms by simp
  finally have "nat ((int ?k - s) mod ?n) = j" by simp
  then show ?thesis using k by (simp add: roll_row_def)
qed

lemma augment_loop_blocks:
  assumes "ncols r = ncols new_roll"
    and "index + 2 * nrows r * length is \<le> nrows new_roll"
  shows "augment_loop r v new_roll index is =
     Inr (new_roll\<lparr>rows := take index (rows new_roll) @
            concat (map (\<lambda>i. rows (np_roll r (i * v)) @ rows (np_roll r (- i * v))) is) @
            drop (index + 2 * nrows r * length is) (rows new_roll)\<rparr>)"
  using assms
proof (induction "is" arbitrary: new_roll index)
  case Nil
  show ?case by simp
next
  case (Cons i "is")
  let ?L = "nrows r"
  let ?xs = "rows new_roll"
  let ?b1 = "rows (np_roll r (i * v))"
  let ?b2 = "rows (np_roll r (- i * v))"
  let ?nr1 = "new_roll\<lparr>rows := take index ?xs @ ?b1 @ drop (index + ?L) ?xs\<rparr>"
  let ?nr2 = "?nr1\<lparr>rows := take (index + ?L) (rows ?nr1) @ ?b2 @ drop (index + ?L + ?L) (rows ?nr1)\<rparr>"
  have lb: "length ?b1 = ?L" "length ?b2 = ?L"
    by (simp_all add: nrows_def length_rows_np_roll)
  from Cons.prems have room: "index + ?L + ?L + 2 * ?L * length is \<le> length ?xs"
    by (simp add: nrows_def algebra_simps)
  have s1: "set_rows new_roll (int index) (int index + int ?L) (np_roll r (i * v)) = Inr ?nr1"
    using set_rows_block [of index "np_roll r (i * v)" new_roll] Cons.prems room
    by (simp add: np_roll_shape(2) nrows_def length_rows_np_roll)
  have len1: "length (rows ?nr1) = length ?xs"
    using room lb by simp
  have s2: "set_rows ?nr1 (int (index + ?L)) (int (index + ?L) + int ?L) (np_roll r (- i * v)) =
      Inr ?nr2"
    using set_rows_block [of "index + ?L" "np_roll r (- i * v)" ?nr1] Cons.prems room len1
    by (simp add: np_roll_shape(2) nrows_def length_rows_np_roll)
  have t1: "take (index + ?L) (rows ?nr1) = take index ?xs @ ?b1"
    using room lb splice_take [of index ?b1 ?xs] by simp
  have d1: "drop k (rows ?nr1) = drop k ?xs" if "index + ?L \<le> k" for k
    using room lb that splice_drop [of index ?b1 ?xs k] by simp
  have rows2: "rows ?nr2 = take index ?xs @ ?b1 @ ?b2 @ drop (index + ?L + ?L) ?xs"
    using t1 d1 [of "index + ?L + ?L"] by simp
  have t2: "take (index + ?L + ?L) (rows ?nr2) = take index ?xs @ ?b1 @ ?b2"
    using room lb by (simp add: rows2)
  have d2: "drop (index + ?L + ?L + 2 * ?L * length is) (rows ?nr2) =
      drop (index + ?L + ?L + 2 * ?L * length is) ?xs"
    using room lb by (simp add: rows2 add.commute)
  have "augment_loop r v ?nr2 (index + ?L + ?L) is =
     Inr (?nr2\<lparr>rows := take (index + ?L + ?L) (rows ?nr2) @
            concat (map (\<lambda>i. rows (np_roll r (i * v)) @ rows (np_roll r (- i * v))) is) @
            drop (index + ?L + ?L + 2 * ?L * length is) (rows ?nr2)\<rparr>)"
    using Cons.prems room len1 lb by (intro Cons.IH) (simp_all add: nrows_def rows2)
  then have "augment_loop r v ?nr2 (index + ?L + ?L) is =
     Inr (new_roll\<lparr>rows := take index ?xs @ ?b1 @ ?b2 @
            concat (map (\<lambda>i. rows (np_roll r (i * v)) @ rows (np_roll r (- i * v))) is) @
            drop (index + ?L + ?L + 2 * ?L * length is) ?xs\<rparr>)"
    by (simp only: t2 d2) simp
  moreover have "index + ?L + ?L + 2 * ?L * length is = index + 2 * ?L * length (i # is)"
    by (simp add: algebra_simps)
  ultimately show ?case
    using s1 s2 by (simp add: Let_def)
qed

lemma range_from_one:
  "0 \<le> h \<Longrightarrow> range_up 1 (h + 1) 1 = map int [1..<Suc (nat h)]"
proof -
  assume h: "0 \<le> h"
  have "range_up 1 (h + 1) 1 = map (\<lambda>k. 1 + int k * 1) [0..<nat ((h + 1 - 1 + 1 - 1) div 1)]"
    by (rule range_up_map) simp
  also have "\<dots> = map (\<lambda>k. int (Suc k)) [0..<nat h]"
    by simp
  also have "\<dots> = map int (map Suc [0..<nat h])"
    by (simp add: comp_def)
  also have "map Suc [0..<nat h] = [1..<Suc (nat h)]"
    by (simp add: map_Suc_upt)
  finally show ?thesis .
qed

lemma np_roll_cell:
  assumes "wf_array2 r" and "t < nrows r" and "j < ncols r"
  shows "rows (np_roll r s) ! t ! nat ((int j + s) mod int (ncols r)) = rows r ! t ! j"
proof -
  have l: "length (rows r ! t) = ncols r"
    using assms(1,2) by (rule wf_array2_row)
  have "rows (np_roll r s) ! t = roll_row s (rows r ! t)"
    using assms(2) by (simp add: np_roll_def nrows_def)
  then show ?thesis
    using roll_row_wraps [of j "rows r ! t" s] assms(3) l by simp
qed

lemma augment_result:
  assumes r: "roll m = Some r" and np: "int (ncols r) = num_pitches m" and n: "0 \<le> n"
  shows "augment m n v =
     (Inr PyNone,
      m\<lparr>roll := Some \<lparr>ncols = ncols r,
         rows = rows r @
           concat (map (\<lambda>k. rows (np_roll r (int k * v)) @ rows (np_roll r (- int k * v)))
                     [1..<Suc (nat (n div 2))])\<rparr>\<rparr>)"
proof -
  let ?L = "nrows r"
  let ?h = "nat (n div 2)"
  let ?N = "?L * (2 * ?h + 1)"
  let ?zeros = "\<lparr>ncols = ncols r, rows = replicate ?N (replicate (ncols r) False)\<rparr>"
  let ?first = "?zeros\<lparr>rows := take 0 (rows ?zeros) @ rows r @ drop (0 + ?L) (rows ?zeros)\<rparr>"
  let ?is = "map int [1..<Suc ?h]"
  let ?blocks = "concat (map (\<lambda>i. rows (np_roll r (i * v)) @ rows (np_roll r (- i * v))) ?is)"
  have h: "0 \<le> n div 2" using n by simp
  have "int ?L * (n div 2 * 2 + 1) = int ?N"
    using h by (simp add: algebra_simps)
  then have z: "np_zeros2 False (int ?L * (n div 2 * 2 + 1)) (num_pitches m) = Inr ?zeros"
    using np [symmetric] by (simp add: np_zeros2_def del: of_nat_mult of_nat_add)
  have "set_rows ?zeros (int 0) (int 0 + int ?L) r = Inr ?first"
    by (rule set_rows_block) (simp_all add: nrows_def)
  then have s0: "set_rows ?zeros 0 (int ?L) r = Inr ?first" by simp
  have rg: "py_range 1 (n div 2 + 1) 1 = Inr ?is"
    using h by (simp add: py_range_def range_from_one)
  have len0: "length (rows ?first) = ?N"
    by (simp add: nrows_def)
  have "augment_loop r v ?first ?L ?is =
     Inr (?first\<lparr>rows := take ?L (rows ?first) @ ?blocks @
            drop (?L + 2 * ?L * length ?is) (rows ?first)\<rparr>)"
    by (rule augment_loop_blocks) (simp_all add: nrows_def)
  moreover have "take ?L (rows ?first) = rows r"
    by (simp add: nrows_def)
  moreover have "drop (?L + 2 * ?L * length ?is) (rows ?first) = []"
    using len0 by (simp add: algebra_simps)
  ultimately have lp: "augment_loop r v ?first ?L ?is =
     Inr \<lparr>ncols = ncols r, rows = rows r @ ?blocks\<rparr>"
    by simp
  have "?blocks = concat (map (\<lambda>k. rows (np_roll r (int k * v)) @ rows (np_roll r (- int k * v)))
                     [1..<Suc ?h])"
    by (simp add: comp_def)
  with lp have lp': "augment_loop r v ?first ?L ?is =
     Inr \<lparr>ncols = ncols r, rows = rows r @
       concat (map (\<lambda>k. rows (np_roll r (int k * v)) @ rows (np_roll r (- int k * v)))
                 [1..<Suc ?h])\<rparr>"
    by simp
  show ?thesis
    by (simp only: augment_def r option.case z sum.case s0 rg lp')
qed

lemma length_concat_const:
  "(\<And>x. x \<in> set xs \<Longrightarrow> length (f x) = c) \<Longrightarrow> length (concat (map f xs)) = length xs * c"
  by (induction xs) simp_all

text \<open>
  Claim C4. Let the object hold a roll of \<open>L\<close> rows whose width is the object's
  \<open>num_pitches\<close>, and let the count \<open>n\<close> be non-negative. Then \<open>augment\<close> returns
  normally and replaces the roll by one of exactly \<open>(2 * (n // 2) + 1) * L\<close> rows and
  the same width, every row as wide as before: first the original rows, then for
  \<open>k = 1 .. n // 2\<close> in turn the copy rolled by \<open>k * v\<close> followed by the copy rolled by
  \<open>- k * v\<close>. A rolled copy has as many rows as the original, and what the original has at
  column \<open>j\<close> the copy rolled by \<open>s\<close> has at column \<open>(j + s) mod width\<close>: the shift
  wraps around and drops nothing. The new roll holds booleans by its type.
  (A roll stored by \<open>load_midi\<close>, or by \<open>load_np\<close> from an array narrower than 128, is
  as wide as \<open>num_pitches\<close>: \<open>load_midi_roll_width\<close>, \<open>load_np_roll_width\<close>.)
\<close>

theorem augment_shifted_copies:
  assumes "roll m = Some r" and "wf_array2 r" and "int (ncols r) = num_pitches m"
    and "0 \<le> n_augments"
  shows "\<exists>r'. augment m n_augments v_step = (Inr PyNone, m\<lparr>roll := Some r'\<rparr>) \<and>
     nrows r' = (2 * nat (n_augments div 2) + 1) * nrows r \<and>
     ncols r' = ncols r \<and> wf_array2 r' \<and>
     rows r' = rows r @
       concat (map (\<lambda>k. rows (np_roll r (int k * v_step)) @ rows (np_roll r (- int k * v_step)))
                 [1..<Suc (nat (n_augments div 2))]) \<and>
     (\<forall>s. nrows (np_roll r s) = nrows r \<and>
        (\<forall>t < nrows r. \<forall>j < ncols r.
           rows (np_roll r s) ! t ! nat ((int j + s) mod int (ncols r)) = rows r ! t ! j))"
proof -
  let ?f = "\<lambda>k. rows (np_roll r (int k * v_step)) @ rows (np_roll r (- int k * v_step))"
  let ?ks = "[1..<Suc (nat (n_augments div 2))]"
  let ?r' = "\<lparr>ncols = ncols r, rows = rows r @ concat (map ?f ?ks)\<rparr>"
  have a: "augment m n_augments v_step = (Inr PyNone, m\<lparr>roll := Some ?r'\<rparr>)"
    using assms(1,3,4) by (rule augment_result)
  have "length (concat (map ?f ?ks)) = length ?ks * (2 * nrows r)"
    by (rule length_concat_const) (simp add: nrows_def length_rows_np_roll)
  moreover have "length ?ks = nat (n_augments div 2)"
    by (simp del: upt_Suc)
  ultimately have len: "nrows ?r' = (2 * nat (n_augments div 2) + 1) * nrows r"
    by (simp add: nrows_def del: upt_Suc)
  have wf: "wf_array2 ?r'"
  proof -
    have "\<forall>k. list_all (\<lambda>row. length row = ncols r) (?f k)"
      using np_roll_wf [OF assms(2)] by (simp add: wf_array2_def np_roll_shape(2))
    then have "list_all (\<lambda>row. length row = ncols r) (concat (map ?f ?ks))"
      by (simp add: list_all_iff)
    then show ?thesis using assms(2) by (simp add: wf_array2_def)
  qed
  have wrap: "\<forall>s. nrows (np_roll r s) = nrows r \<and>
        (\<forall>t < nrows r. \<forall>j < ncols r.
           rows (np_roll r s) ! t ! nat ((int j + s) mod int (ncols r)) = rows r ! t ! j)"
    using np_roll_cell [OF assms(2)] by (simp add: np_roll_shape(1))
  have "ncols ?r' = ncols r" and "rows ?r' = rows r @ concat (map ?f ?ks)"
    by simp_all
  then show ?thesis
    using a len wf wrap by (intro exI [of _ ?r'] conjI)
qed

theorem augment_shifted_copies_witness:
  "\<exists>r'. augment demo_midi 2 1 = (Inr PyNone, demo_midi\<lparr>roll := Some r'\<rparr>) \<and>
     nrows r' = 15 \<and> ncols r' = 2 \<and>
     take 5 (rows r') = rows demo_roll \<and> rows r' ! 5 = [False, True] \<and>
     rows r' ! 10 = [False, True]"
proof -
  have h: "roll demo_midi = Some demo_roll" "wf_array2 demo_roll"
    "int (ncols demo_roll) = num_pitches demo_midi"
    by (simp_all add: demo_midi_def demo_roll_def wf_array2_def)
  have e: "rows (np_roll demo_roll 1) ! 0 = [False, True]"
    "rows (np_roll demo_roll (- 1)) ! 0 = [False, True]"
    "nrows demo_roll = 5" "length (rows (np_roll demo_roll 1)) = 5"
    by (simp_all add: np_roll_def roll_row_def demo_roll_def nrows_def upt_conv_Cons)
  obtain r' where a: "augment demo_midi 2 1 = (Inr PyNone, demo_midi\<lparr>roll := Some r'\<rparr>)"
    and n: "nrows r' = (2 * nat (2 div 2) + 1) * nrows demo_roll" "ncols r' = ncols demo_roll"
    and rw: "rows r' = rows demo_roll @
       concat (map (\<lambda>k. rows (np_roll demo_roll (int k * 1)) @ rows (np_roll demo_roll (- int k * 1)))
                 [1..<Suc (nat (2 div 2))])"
    using augment_shifted_copies [OF h, of 2 1] by auto
  have "rows r' = rows demo_roll @ rows (np_roll demo_roll 1) @ rows (np_roll demo_roll (- 1))"
    using rw by simp
  then have "take 5 (rows r') = rows demo_roll" "rows r' ! 5 = [False, True]"
    "rows r' ! 10 = [False, True]"
    using e by (simp_all add: nrows_def nth_append)
  with a n e(3) show ?thesis by (auto simp: demo_roll_def)
qed

subsection \<open>C7: reformat_roll undoes the pitch-window cut\<close>

lemma window_bounds:
  assumes "0 \<le> notes_above m" and "notes_above m \<le> MIDDLE_C"
  shows "slice_bounds MIDI_INPUTS (MIDDLE_C - notes_above m) (MIDDLE_C + notes_above m) =
     (nat (MIDDLE_C - notes_above m), nat (MIDDLE_C + notes_above m))"
  using assms
  by (auto simp: slice_bounds_def norm_bound_def Let_def MIDDLE_C_def MIDI_INPUTS_def)

lemma cut_window_inside:
  assumes "0 \<le> notes_above m" and "notes_above m \<le> MIDDLE_C"
    and "wf_array2 a" and "ncols a = MIDI_INPUTS"
  shows "cut_window m a =
     \<lparr>ncols = nat (2 * notes_above m),
      rows = map (\<lambda>row. take (nat (2 * notes_above m)) (drop (nat (MIDDLE_C - notes_above m)) row))
               (rows a)\<rparr>"
proof -
  let ?lo = "nat (MIDDLE_C - notes_above m)" and ?hi = "nat (MIDDLE_C + notes_above m)"
  have w: "?hi - ?lo = nat (2 * notes_above m)"
    using assms(1,2) by (simp add: MIDDLE_C_def)
  have "py_slice (MIDDLE_C - notes_above m) (MIDDLE_C + notes_above m) row =
      take (nat (2 * notes_above m)) (drop ?lo row)" if "row \<in> set (rows a)" for row
  proof -
    have "length row = MIDI_INPUTS"
      using that assms(3,4) by (simp add: wf_array2_def list_all_iff)
    then show ?thesis
      using window_bounds [OF assms(1,2)] w by (simp add: py_slice_def)
  qed
  then show ?thesis
    using window_bounds [OF assms(1,2)] w assms(4) by (simp add: cut_window_def slice_cols_def)
qed

lemma window_row_nth:
  assumes "length s = hi - lo" and "lo \<le> hi" and "hi \<le> n" and "p < n"
  shows "(take lo (replicate n z) @ s @ drop hi (replicate n z)) ! p =
     (if lo \<le> p \<and> p < hi then s ! (p - lo) else z)"
  using assms by (auto simp: nth_append)

lemma set_cols_window:
  assumes "lo \<le> hi" and "hi \<le> n" and "ncols src = hi - lo"
    and "slice_bounds n start stop = (lo, hi)"
  shows "set_cols \<lparr>ncols = n, rows = replicate (nrows src) (replicate n z)\<rparr> start stop src =
     Inr \<lparr>ncols = n,
          rows = map (\<lambda>s. take lo (replicate n z) @ s @ drop hi (replicate n z)) (rows src)\<rparr>"
proof -
  have "zip (replicate (nrows src) (replicate n z)) (rows src) =
      map (\<lambda>s. (replicate n z, s)) (rows src)"
    by (simp add: nrows_def zip_replicate1)
  then show ?thesis
    using assms by (simp add: set_cols_def nrows_def broadcast2_def)
qed

lemma reformat_roll_window:
  assumes r: "roll m = Some r" and k: "0 \<le> notes_above m" "notes_above m \<le> MIDDLE_C"
    and w: "int (ncols r) = 2 * notes_above m"
  shows "reformat_roll m =
     Inr \<lparr>ncols = MIDI_INPUTS,
          rows = map (\<lambda>row. take (nat (MIDDLE_C - notes_above m)) (replicate MIDI_INPUTS 0) @
                            map of_bool row @
                            drop (nat (MIDDLE_C + notes_above m)) (replicate MIDI_INPUTS 0))
                   (rows r)\<rparr>"
proof -
  let ?lo = "nat (MIDDLE_C - notes_above m)" and ?hi = "nat (MIDDLE_C + notes_above m)"
  let ?src = "astype_float r"
  have z: "np_zeros2 (0::real) (int (nrows r)) (int MIDI_INPUTS) =
      Inr \<lparr>ncols = MIDI_INPUTS, rows = replicate (nrows ?src) (replicate MIDI_INPUTS 0)\<rparr>"
    by (simp add: np_zeros2_def astype_float_def nrows_def)
  have "set_cols \<lparr>ncols = MIDI_INPUTS, rows = replicate (nrows ?src) (replicate MIDI_INPUTS (0::real))\<rparr>
        (MIDDLE_C - notes_above m) (MIDDLE_C + notes_above m) ?src =
     Inr \<lparr>ncols = MIDI_INPUTS,
          rows = map (\<lambda>s. take ?lo (replicate MIDI_INPUTS 0) @ s @ drop ?hi (replicate MIDI_INPUTS 0))
                   (rows ?src)\<rparr>"
  proof (rule set_cols_window)
    show "?lo \<le> ?hi" using k by simp
    show "?hi \<le> MIDI_INPUTS" using k by (simp add: MIDDLE_C_def MIDI_INPUTS_def)
    show "ncols ?src = ?hi - ?lo" using k w by (simp add: astype_float_def MIDDLE_C_def)
    show "slice_bounds MIDI_INPUTS (MIDDLE_C - notes_above m) (MIDDLE_C + notes_above m) = (?lo, ?hi)"
      using k by (rule window_bounds)
  qed
  then show ?thesis
    using r z by (simp add: reformat_roll_def astype_float_def comp_def)
qed

text \<open>
  Claim C7. Let the object hold a cut roll: a roll as wide as the window, \<open>2 * notes_above\<close>
  columns with \<open>0 \<le> notes_above \<le> MIDDLE_C\<close>. Then \<open>reformat_roll\<close> returns an
  array of shape \<open>(L, 128)\<close>, which is what \<open>save\<close> exports when \<open>cut\<close> is set. Its
  column \<open>p\<close> holds the held roll's column \<open>p - (MIDDLE_C - notes_above)\<close> when
  \<open>MIDDLE_C - notes_above \<le> p < MIDDLE_C + notes_above\<close> and zero otherwise. So when
  the held roll is the cut of a full-width roll, the export agrees with that full roll
  inside the window and is zero outside it.
\<close>

theorem reformat_restores_window:
  assumes "roll m = Some r" and "wf_array2 r"
    and "0 \<le> notes_above m" and "notes_above m \<le> MIDDLE_C"
    and "int (ncols r) = 2 * notes_above m"
  shows "\<exists>export. reformat_roll m = Inr export \<and>
     (cut m \<longrightarrow> save_roll m = Inr (Float_roll export)) \<and>
     shape2 export = (nrows r, MIDI_INPUTS) \<and> wf_array2 export \<and>
     (\<forall>t < nrows r. \<forall>p < MIDI_INPUTS.
        rows export ! t ! p =
          (if MIDDLE_C - notes_above m \<le> int p \<and> int p < MIDDLE_C + notes_above m
           then of_bool (rows r ! t ! (p - nat (MIDDLE_C - notes_above m))) else 0)) \<and>
     (\<forall>full. wf_array2 full \<and> ncols full = MIDI_INPUTS \<and> cut_window m full = r \<longrightarrow>
        nrows full = nrows r \<and>
        (\<forall>t < nrows r. \<forall>p < MIDI_INPUTS.
           rows export ! t ! p =
             (if MIDDLE_C - notes_above m \<le> int p \<and> int p < MIDDLE_C + notes_above m
              then of_bool (rows full ! t ! p) else 0)))"
proof -
  let ?lo = "nat (MIDDLE_C - notes_above m)" and ?hi = "nat (MIDDLE_C + notes_above m)"
  let ?row = "\<lambda>row. take ?lo (replicate MIDI_INPUTS (0::real)) @ map of_bool row @
                   drop ?hi (replicate MIDI_INPUTS 0)"
  let ?e = "\<lparr>ncols = MIDI_INPUTS, rows = map ?row (rows r)\<rparr>"
  have lohi: "?lo \<le> ?hi" "?hi \<le> MIDI_INPUTS" "?hi - ?lo = ncols r"
    using assms(3-5) by (simp_all add: MIDDLE_C_def MIDI_INPUTS_def)
  have rf: "reformat_roll m = Inr ?e"
    using assms(1,3,4,5) by (rule reformat_roll_window)
  then have sv: "cut m \<longrightarrow> save_roll m = Inr (Float_roll ?e)"
    by (simp add: save_roll_def)
  have sh: "shape2 ?e = (nrows r, MIDI_INPUTS)"
    by (simp add: shape2_def nrows_def)
  have rowlen: "length row = ncols r" if "row \<in> set (rows r)" for row
    using that assms(2) by (simp add: wf_array2_def list_all_iff)
  have wf: "wf_array2 ?e"
    using lohi rowlen by (auto simp: wf_array2_def list_all_iff)
  have cell: "rows ?e ! t ! p =
      (if MIDDLE_C - notes_above m \<le> int p \<and> int p < MIDDLE_C + notes_above m
       then of_bool (rows r ! t ! (p - ?lo)) else 0)"
    if t: "t < nrows r" and p: "p < MIDI_INPUTS" for t p
  proof -
    let ?s = "map of_bool (rows r ! t) :: real list"
    have l: "length ?s = ?hi - ?lo"
      using t assms(2) lohi(3) by (simp add: wf_array2_row)
    have "rows ?e ! t ! p = (take ?lo (replicate MIDI_INPUTS 0) @ ?s @ drop ?hi (replicate MIDI_INPUTS 0)) ! p"
      using t by (simp add: nrows_def)
    also have "\<dots> = (if ?lo \<le> p \<and> p < ?hi then ?s ! (p - ?lo) else 0)"
      using l lohi(1,2) p by (rule window_row_nth)
    also have "\<dots> = (if ?lo \<le> p \<and> p < ?hi then of_bool (rows r ! t ! (p - ?lo)) else 0)"
    proof (cases "?lo \<le> p \<and> p < ?hi")
      case True
      then have "p - ?lo < length (rows r ! t)"
        using l by (simp del: nat_diff_distrib) arith
      then have "?s ! (p - ?lo) = of_bool (rows r ! t ! (p - ?lo))"
        by simp
      then show ?thesis by (simp only:)
    next
      case False
      then show ?thesis by (simp only: if_False)
    qed
    also have "(?lo \<le> p \<and> p < ?hi) =
        (MIDDLE_C - notes_above m \<le> int p \<and> int p < MIDDLE_C + notes_above m)"
      using assms(3,4) by auto
    finally show ?thesis .
  qed
  have trip: "nrows full = nrows r \<and>
        (\<forall>t < nrows r. \<forall>p < MIDI_INPUTS.
           rows ?e ! t ! p =
             (if MIDDLE_C - notes_above m \<le> int p \<and> int p < MIDDLE_C + notes_above m
              then of_bool (rows full ! t ! p) else 0))"
    if f: "wf_array2 full \<and> ncols full = MIDI_INPUTS \<and> cut_window m full = r" for full
  proof -
    have c: "r = \<lparr>ncols = nat (2 * notes_above m),
        rows = map (\<lambda>row. take (nat (2 * notes_above m)) (drop ?lo row)) (rows full)\<rparr>"
      using cut_window_inside [OF assms(3,4), of full] f by simp
    then have n: "nrows full = nrows r"
      by (simp add: nrows_def)
    have "of_bool (rows r ! t ! (p - ?lo)) = (of_bool (rows full ! t ! p) :: real)"
      if t: "t < nrows r" and p: "p < MIDI_INPUTS"
        and i: "MIDDLE_C - notes_above m \<le> int p \<and> int p < MIDDLE_C + notes_above m" for t p
    proof -
      have "length (rows full ! t) = MIDI_INPUTS"
        using f t n by (simp add: wf_array2_row)
      moreover have "rows r ! t = take (nat (2 * notes_above m)) (drop ?lo (rows full ! t))"
        using t n by (subst c) (simp add: nrows_def)
      moreover have "?lo \<le> p" "p - ?lo < nat (2 * notes_above m)"
        using i assms(3,4) by auto
      moreover have "?lo + (p - ?lo) = p"
        using \<open>?lo \<le> p\<close> by simp
      ultimately show ?thesis using p by (simp add: nth_drop)
    qed
    then show ?thesis using cell n by simp
  qed
  show ?thesis
    using rf sv sh wf cell trip by (intro exI [of _ ?e] conjI allI impI) blast+
qed

theorem reformat_restores_window_witness:
  "\<exists>export. reformat_roll demo_cut_midi = Inr export \<and>
     save_roll demo_cut_midi = Inr (Float_roll export) \<and> shape2 export = (1, 128) \<and>
     rows export ! 0 ! 62 = 1 \<and> rows export ! 0 ! 63 = 0 \<and> rows export ! 0 ! 65 = 1 \<and>
     rows export ! 0 ! 10 = 0 \<and> rows demo_full ! 0 ! 10"
proof -
  let ?r = "\<lparr>ncols = 4, rows = [[True, False, False, True]]\<rparr> :: bool array2"
  have h: "roll demo_cut_midi = Some ?r" "wf_array2 ?r" "0 \<le> notes_above demo_cut_midi"
    "notes_above demo_cut_midi \<le> MIDDLE_C" "int (ncols ?r) = 2 * notes_above demo_cut_midi"
    by (simp_all add: demo_cut_midi_def wf_array2_def MIDDLE_C_def)
  have f: "wf_array2 demo_full \<and> ncols demo_full = MIDI_INPUTS \<and>
      cut_window demo_cut_midi demo_full = ?r"
    by (simp add: demo_full_def demo_cut_midi_def wf_array2_def MIDI_INPUTS_def cut_window_def
        slice_cols_def py_slice_def slice_bounds_def norm_bound_def MIDDLE_C_def)
  have c: "cut demo_cut_midi" "nrows ?r = 1" "rows demo_full ! 0 ! 10"
    "rows demo_full ! 0 ! 62" "\<not> rows demo_full ! 0 ! 63" "rows demo_full ! 0 ! 65"
    by (simp_all add: demo_cut_midi_def demo_full_def nrows_def nth_append)
  obtain export where e: "reformat_roll demo_cut_midi = Inr export"
    and s: "cut demo_cut_midi \<longrightarrow> save_roll demo_cut_midi = Inr (Float_roll export)"
    and sh: "shape2 export = (nrows ?r, MIDI_INPUTS)"
    and trip: "\<forall>full. wf_array2 full \<and> ncols full = MIDI_INPUTS \<and>
        cut_window demo_cut_midi full = ?r \<longrightarrow>
        (\<forall>t < nrows ?r. \<forall>p < MIDI_INPUTS.
           rows export ! t ! p =
             (if MIDDLE_C - notes_above demo_cut_midi \<le> int p \<and>
                 int p < MIDDLE_C + notes_above demo_cut_midi
              then of_bool (rows full ! t ! p) else 0))"
    using reformat_restores_window [OF h] by blast
  have cells: "\<forall>p < MIDI_INPUTS. rows export ! 0 ! p =
      (if MIDDLE_C - notes_above demo_cut_midi \<le> int p \<and>
          int p < MIDDLE_C + notes_above demo_cut_midi
       then of_bool (rows demo_full ! 0 ! p) else 0)"
    using trip f c(2) by simp
  have "rows export ! 0 ! 62 = 1" "rows export ! 0 ! 63 = 0" "rows export ! 0 ! 65 = 1"
    "rows export ! 0 ! 10 = 0"
    using cells [rule_format, of 62] cells [rule_format, of 63] cells [rule_format, of 65]
      cells [rule_format, of 10] c
    by (simp_all add: MIDI_INPUTS_def MIDDLE_C_def demo_cut_midi_def)
  with e s sh c show ?thesis by (auto simp: MIDI_INPUTS_def)
qed

subsection \<open>C2 and C5: the width of the cut and of the merged roll\<close>

lemma analyse_Some: "\<exists>a'. analyse U a ts = Some a'"
proof -
  have "analyse U a ts \<noteq> None"
    using classify_total by (simp add: analyse_None_iff list_ex_iff)
  then show ?thesis by auto
qed

lemma cut_window_tempo [simp]: "cut_window (m\<lparr>tempo := x\<rparr>) r = cut_window m r"
  by (simp add: cut_window_def)

lemma kept_rolls_tempo [simp]: "kept_rolls U (m\<lparr>tempo := x\<rparr>) fs = kept_rolls U m fs"
  by (simp add: kept_rolls_def Let_def)

lemma load_loop_collects:
  "\<exists>m'. load_loop U m fs rolls n =
      (m', Collected (rolls @ kept_rolls U m fs) (n + sum_list (map nrows (kept_rolls U m fs)))) \<and>
     num_pitches m' = num_pitches m \<and> roll m' = roll m \<and> cut m' = cut m \<and>
     notes_above m' = notes_above m"
proof (induction fs arbitrary: m rolls n)
  case Nil
  show ?case by (simp add: kept_rolls_def)
next
  case (Cons f fs)
  let ?m1 = "m\<lparr>tempo := Some (tempo_mean f)\<rparr>"
  obtain a where a: "analyse U \<lparr>piano = 0, drums = 0, bass = 0, other = 0\<rparr> (tracks f) = Some a"
    using analyse_Some by blast
  show ?case
  proof (cases "filter (keep_track U) (tracks f) = []")
    case True
    then have k: "kept_rolls U m (f # fs) = kept_rolls U m fs"
      by (simp add: kept_rolls_def)
    have step: "load_loop U m (f # fs) rolls n = load_loop U ?m1 fs rolls n"
      using a True by (simp add: Let_def)
    show ?thesis
      using Cons.IH [of ?m1 rolls n] by (simp only: step k) simp
  next
    case False
    define ref where "ref = (let r = blend_any (filter (keep_track U) (tracks f))
                             in if cut m then cut_window m r else r)"
    have k: "kept_rolls U m (f # fs) = ref # kept_rolls U m fs"
      using False by (simp add: kept_rolls_def ref_def)
    have step: "load_loop U m (f # fs) rolls n = load_loop U ?m1 fs (rolls @ [ref]) (n + nrows ref)"
      using a False by (simp add: Let_def ref_def)
    show ?thesis
      using Cons.IH [of ?m1 "rolls @ [ref]" "n + nrows ref"]
      by (simp only: step k) (simp add: add.assoc)
  qed
qed

lemma merge_loop_concat:
  assumes "\<forall>a \<in> set rs. ncols a = ncols extended"
    and "index + sum_list (map nrows rs) \<le> nrows extended"
  shows "merge_loop extended index rs =
     Inr (extended\<lparr>rows := take index (rows extended) @ concat (map rows rs) @
            drop (index + sum_list (map nrows rs)) (rows extended)\<rparr>)"
  using assms
proof (induction rs arbitrary: extended index)
  case Nil
  show ?case by simp
next
  case (Cons a rs)
  let ?xs = "rows extended"
  let ?e1 = "extended\<lparr>rows := take index ?xs @ rows a @ drop (index + nrows a) ?xs\<rparr>"
  from Cons.prems have room: "index + nrows a + sum_list (map nrows rs) \<le> nrows extended"
    by simp
  then have room': "index + length (rows a) \<le> length ?xs"
    by (simp add: nrows_def)
  have s1: "set_rows extended (int index) (int index + int (nrows a)) a = Inr ?e1"
  proof (rule set_rows_block)
    show "index + nrows a \<le> nrows extended" using room by simp
    show "ncols a = ncols extended" using Cons.prems(1) by simp
  qed
  have t1: "take (index + nrows a) (rows ?e1) = take index ?xs @ rows a"
    using room' splice_take [of index "rows a" ?xs] by (simp add: nrows_def)
  have d1: "drop (index + nrows a + sum_list (map nrows rs)) (rows ?e1) =
      drop (index + nrows a + sum_list (map nrows rs)) ?xs"
    using room' splice_drop [of index "rows a" ?xs "index + nrows a + sum_list (map nrows rs)"]
    by (simp add: nrows_def)
  have len1: "nrows ?e1 = nrows extended"
    using room' by (simp add: nrows_def)
  have "merge_loop ?e1 (index + nrows a) rs =
     Inr (?e1\<lparr>rows := take (index + nrows a) (rows ?e1) @ concat (map rows rs) @
            drop (index + nrows a + sum_list (map nrows rs)) (rows ?e1)\<rparr>)"
    using Cons.prems room len1 by (intro Cons.IH) simp_all
  then have "merge_loop ?e1 (index + nrows a) rs =
     Inr (extended\<lparr>rows := take index ?xs @ rows a @ concat (map rows rs) @
            drop (index + nrows a + sum_list (map nrows rs)) ?xs\<rparr>)"
    by (simp only: t1 d1) simp
  then show ?case
    using s1 by (simp add: add.assoc)
qed

lemma length_concat_rows: "length (concat (map rows ks)) = sum_list (map nrows ks)"
  by (induction ks) (simp_all add: nrows_def)

text \<open>
  When every kept roll is \<open>num_pitches\<close> wide, \<open>load_midi\<close> returns \<open>None\<close> and the
  stored roll is the kept rolls one after the other, in input order; its length is the sum
  of their lengths. Files without a piano track are not among the kept rolls.
\<close>

lemma load_midi_merges:
  assumes "\<forall>r \<in> set (kept_rolls U m fnames). int (ncols r) = num_pitches m"
    and "0 \<le> num_pitches m"
  shows "\<exists>m'. load_midi U m fnames = (Inr PyNone, m') \<and>
     roll m' = Some \<lparr>ncols = nat (num_pitches m),
                      rows = concat (map rows (kept_rolls U m fnames))\<rparr> \<and>
     length (concat (map rows (kept_rolls U m fnames))) =
       sum_list (map nrows (kept_rolls U m fnames))"
proof -
  let ?ks = "kept_rolls U m fnames"
  let ?n = "sum_list (map nrows ?ks)"
  let ?ext = "\<lparr>ncols = nat (num_pitches m),
               rows = replicate ?n (replicate (nat (num_pitches m)) False)\<rparr>"
  obtain m1 where l: "load_loop U m fnames [] 0 = (m1, Collected ?ks ?n)"
    and np: "num_pitches m1 = num_pitches m"
    using load_loop_collects [of U m fnames "[]" 0] by auto
  have z: "np_zeros2 False (int ?n) (num_pitches m1) = Inr ?ext"
    using assms(2) np by (simp add: np_zeros2_def)
  have "merge_loop ?ext 0 ?ks =
     Inr (?ext\<lparr>rows := take 0 (rows ?ext) @ concat (map rows ?ks) @
            drop (0 + ?n) (rows ?ext)\<rparr>)"
    using assms by (intro merge_loop_concat) (auto simp: nrows_def)
  then have mg: "merge_loop ?ext 0 ?ks =
      Inr \<lparr>ncols = nat (num_pitches m), rows = concat (map rows ?ks)\<rparr>"
    by simp
  have "length (concat (map rows ?ks)) = ?n"
    by (rule length_concat_rows)
  then show ?thesis
    using l z mg by (simp add: load_midi_def)
qed

text \<open>
  What the cut does on a full-width roll is \<open>cut_window_inside\<close>: for
  \<open>0 \<le> notes_above \<le> MIDDLE_C\<close> it keeps the columns from \<open>MIDDLE_C - notes_above\<close> up
  to, not including, \<open>MIDDLE_C + notes_above\<close>, which are \<open>2 * notes_above\<close> columns. For
  an even \<open>num_pitches\<close> between 0 and 128 that is \<open>num_pitches\<close>.
\<close>

lemma cut_window_width_even:
  assumes "notes_above m = num_pitches m div 2" and "even (num_pitches m)"
    and "0 \<le> num_pitches m" and "num_pitches m \<le> int MIDI_INPUTS"
    and "wf_array2 a" and "ncols a = MIDI_INPUTS"
  shows "int (ncols (cut_window m a)) = num_pitches m"
proof -
  have k: "0 \<le> notes_above m" "notes_above m \<le> MIDDLE_C"
    using assms(1,3,4) by (simp_all add: MIDDLE_C_def MIDI_INPUTS_def)
  have "2 * notes_above m = num_pitches m"
    using assms(1,2) by simp
  then show ?thesis
    using cut_window_inside [OF k assms(5,6)] assms(3) by simp
qed

text \<open>
  Claim C2 says that for every object with \<open>cut\<close> set the cut roll is exactly
  \<open>num_pitches\<close> wide. \<open>Midi(61)\<close> is such an object: \<open>notes_above\<close> is 30, the cut
  of a file's 128-column roll keeps the 60 columns 34 to 93, and \<open>load_midi\<close> then raises
  ValueError when it copies that roll into the buffer it allocated \<open>num_pitches = 61\<close>
  columns wide.
\<close>

theorem cut_width_odd_num_pitches:
  "cut (init 61 24 True) \<and> num_pitches (init 61 24 True) = 61 \<and>
   notes_above (init 61 24 True) = 30 \<and>
   shape2 (blend_any [demo_piano]) = (1, 128) \<and>
   shape2 (cut_window (init 61 24 True) (blend_any [demo_piano])) = (1, 60) \<and>
   fst (load_midi U (init 61 24 True) [demo_file]) = Inl ValueError"
  by code_simp

text \<open>
  Claim C5 says that \<open>load_midi\<close> merges the kept files' rolls into one roll of their
  shared width, whose length is the sum of their lengths. \<open>load_midi_merges\<close> proves
  that for an object whose \<open>num_pitches\<close> is that shared width. The merge buffer is
  always allocated \<open>num_pitches\<close> columns wide, though: on \<open>Midi(60, cut=False)\<close> the
  one kept file has an uncut roll of shape \<open>(1, 128)\<close>, and \<open>load_midi\<close> raises
  ValueError and stores no roll.
\<close>

theorem load_midi_uncut_raises:
  "\<not> cut (init 60 24 False) \<and> num_pitches (init 60 24 False) = 60 \<and>
   map shape2 (kept_rolls U (init 60 24 False) [demo_file]) = [(1, 128)] \<and>
   fst (load_midi U (init 60 24 False) [demo_file]) = Inl ValueError \<and>
   roll (snd (load_midi U (init 60 24 False) [demo_file])) = None"
  by code_simp

text \<open>The same file on \<open>Midi(60)\<close>: the bass track is dropped and the roll is 60 wide.\<close>

lemma load_midi_demo_cut:
  "fst (load_midi U (init 60 24 True) [demo_file]) = Inr PyNone \<and>
   map_option shape2 (roll (snd (load_midi U (init 60 24 True) [demo_file]))) = Some (1, 60)"
  by code_simp

end
